theory Spec2Isabelle
  imports Main "HOL-Library.Word"
begin

unbundle bit_operations_syntax

section \<open>Machine types\<close>

text \<open>
  The library targets 32-bit Cortex-M7 boards: \<^verbatim>\<open>size_t\<close>, \<^verbatim>\<open>uintptr_t\<close> and
  \<^verbatim>\<open>uint32_t\<close> are 32-bit words whose arithmetic wraps, and a data pointer is its
  address, with 0 for \<^verbatim>\<open>nullptr\<close>.
\<close>

type_synonym size_t = "32 word"
type_synonym addr = "32 word"

definition sizeof_ptr :: size_t where
  "sizeof_ptr = 4"

section \<open>AlignedAlloc (DMABuffer.h, lines 10-35)\<close>

text \<open>
  \<^verbatim>\<open>AlignedAlloc<A>::malloc(size)\<close>. The template parameter \<open>A\<close> is the first
  argument. The C library's \<^verbatim>\<open>::malloc\<close> is the parameter \<open>sys_malloc\<close>: it maps the
  requested size to the address of the block, 0 when it fails. The \<^verbatim>\<open>||\<close> of the source
  does not call it when \<open>A\<close> is odd. The result is the returned pointer together with the
  store \<^verbatim>\<open>ptr[-1] = stashed\<close>, given as the address written and the value written there.
\<close>

definition AlignedAlloc_malloc ::
  "size_t \<Rightarrow> (size_t \<Rightarrow> addr) \<Rightarrow> size_t \<Rightarrow> addr \<times> (addr \<times> addr) option" where
  "AlignedAlloc_malloc A sys_malloc sz =
     (let offset = A - 1 + sizeof_ptr in
      if A mod 2 \<noteq> 0 then (0, None)
      else let stashed = sys_malloc (sz + offset) in
        if stashed = 0 then (0, None)
        else let ptr = (stashed + offset) AND NOT (A - 1)
             in (ptr, Some (ptr - sizeof_ptr, stashed)))"

text \<open>
  \<^verbatim>\<open>AlignedAlloc<A>::free(ptr)\<close>: the argument \<open>mem\<close> reads a pointer-sized cell of
  memory; the result is the address handed to \<^verbatim>\<open>::free\<close>, if any.
\<close>

definition AlignedAlloc_free :: "(addr \<Rightarrow> addr) \<Rightarrow> addr \<Rightarrow> addr option" where
  "AlignedAlloc_free mem ptr =
     (if ptr \<noteq> 0 then Some (mem (ptr - sizeof_ptr)) else None)"

definition AlignedAlloc_round :: "size_t \<Rightarrow> size_t \<Rightarrow> size_t" where
  "AlignedAlloc_round A sz = (sz + (A - 1)) AND NOT (A - 1)"

text \<open>What the specification asks of the alignment: a power of two.\<close>

definition is_power_of_two :: "size_t \<Rightarrow> bool" where
  "is_power_of_two A = (\<exists>k \<in> set [0..<32]. A = 2 ^ k)"

section \<open>DMABuffer (DMABuffer.h, lines 44-122)\<close>

text \<open>
  The field \<^verbatim>\<open>pool\<close> is kept as the flag "is not null": the only pool a buffer of this
  model can point to is the one that constructed it. The field \<^verbatim>\<open>next\<close> is the link
  used by the queues, which are lists here. \<open>DMABuffer_ctor\<close> is the constructor.
\<close>

record DMABuffer =
  b_pool :: bool
  n_samples :: size_t
  n_channels :: size_t
  ptr :: addr
  ts :: "32 word"
  flags :: "32 word"

definition DMABuffer_ctor :: "bool \<Rightarrow> size_t \<Rightarrow> size_t \<Rightarrow> addr \<Rightarrow> DMABuffer" where
  "DMABuffer_ctor p samples chans mem =
     \<lparr>b_pool = p, n_samples = samples, n_channels = chans, ptr = mem, ts = 0, flags = 0\<rparr>"

definition DMABuffer_default :: DMABuffer where
  "DMABuffer_default = DMABuffer_ctor False 0 0 0"

definition data :: "DMABuffer \<Rightarrow> addr" where
  "data b = ptr b"

definition size_b :: "DMABuffer \<Rightarrow> size_t" where
  "size_b b = n_samples b * n_channels b"

text \<open>\<^verbatim>\<open>sizeof(T)\<close> of the sample type is the first argument of \<open>bytes\<close>.\<close>

definition bytes :: "size_t \<Rightarrow> DMABuffer \<Rightarrow> size_t" where
  "bytes sizeof_T b = n_samples b * n_channels b * sizeof_T"

definition timestamp :: "DMABuffer \<Rightarrow> 32 word" where
  "timestamp b = ts b"

definition set_timestamp :: "32 word \<Rightarrow> DMABuffer \<Rightarrow> DMABuffer" where
  "set_timestamp t b = b\<lparr>ts := t\<rparr>"

definition channels :: "DMABuffer \<Rightarrow> 32 word" where
  "channels b = n_channels b"

definition setflags :: "32 word \<Rightarrow> DMABuffer \<Rightarrow> DMABuffer" where
  "setflags f b = b\<lparr>flags := flags b OR f\<rparr>"

definition getflags :: "32 word \<Rightarrow> DMABuffer \<Rightarrow> bool" where
  "getflags f b = (flags b AND f \<noteq> 0)"

definition clrflags :: "32 word \<Rightarrow> DMABuffer \<Rightarrow> DMABuffer" where
  "clrflags f b = b\<lparr>flags := flags b AND NOT f\<rparr>"

text \<open>
  What can go wrong: a read through a null pointer, a read outside an array, a use of a
  buffer whose pool is gone. \<open>Waiting\<close> is a call that has not returned; \<open>Misuse\<close>
  marks a trace in which the application passes a buffer it does not hold, which the
  code does not detect.
\<close>

datatype error = NullDeref | OutOfBounds | Dangling | Waiting | Misuse


section \<open>LLQueue\<close>

text \<open>
  Modelled from the spec: the class \<^verbatim>\<open>LLQueue\<close> of \<^verbatim>\<open>Queue.h\<close>, which is not among
  the sources. The specification describes the free and the ready queue as hand-off
  queues with a push and a pop, a pop from an empty queue giving a null result; the
  queue is a list in arrival order, \<open>None\<close> is the null result. A buffer is linked into
  a queue through its own \<^verbatim>\<open>next\<close> field, so the list is what the queue holds as long
  as no buffer is pushed while it is still in a queue.
\<close>

definition LLQueue_push :: "'a \<Rightarrow> 'a list \<Rightarrow> 'a list" where
  "LLQueue_push v q = q @ [v]"

definition LLQueue_pop :: "'a list \<Rightarrow> 'a option \<times> 'a list" where
  "LLQueue_pop q = (case q of [] \<Rightarrow> (None, []) | v # rest \<Rightarrow> (Some v, rest))"

definition LLQueue_empty :: "'a list \<Rightarrow> bool" where
  "LLQueue_empty q = (q = [])"

section \<open>DMABufferPool (DMABuffer.h, lines 124-180)\<close>

text \<open>
  A \<^verbatim>\<open>DMABuffer<T>*\<close> is a \<open>bufref\<close>: \<open>Buf i\<close> is \<^verbatim>\<open>&buffers[i]\<close> of the pool at
  hand, \<open>NULLBUF\<close> is the static unbound buffer that \<^verbatim>\<open>AdvancedDAC::dequeue\<close> returns
  when no channel is bound. These are the references the driver itself hands out.
\<close>

datatype bufref = Buf nat | NULLBUF

record DMABufferPool =
  freeq :: "bufref list"
  readyq :: "bufref list"
  buffers :: "DMABuffer list option"
  pool_mem :: addr

text \<open>
  The constructor. \<open>A\<close> and \<open>sizeof_T\<close> are the template's alignment and
  \<^verbatim>\<open>sizeof(T)\<close>; \<open>new_ok\<close> tells whether \<^verbatim>\<open>new DMABuffer<T>[n_buffers]\<close> gave an
  array. \<open>pool_init\<close> is one round of the initialisation loop.
\<close>

definition pool_init ::
  "size_t \<Rightarrow> size_t \<Rightarrow> addr \<Rightarrow> size_t \<Rightarrow> nat \<Rightarrow> DMABufferPool \<Rightarrow> DMABufferPool" where
  "pool_init n_samp n_chan mem bufsize i p =
     p\<lparr>buffers := map_option
           (\<lambda>bs. bs[i := DMABuffer_ctor True n_samp n_chan (mem + of_nat i * bufsize)])
           (buffers p),
       freeq := LLQueue_push (Buf i) (freeq p)\<rparr>"

definition DMABufferPool_ctor ::
  "size_t \<Rightarrow> size_t \<Rightarrow> bool \<Rightarrow> (size_t \<Rightarrow> addr) \<Rightarrow> size_t \<Rightarrow> size_t \<Rightarrow> size_t
     \<Rightarrow> DMABufferPool" where
  "DMABufferPool_ctor A sizeof_T new_ok sys_malloc n_samp n_chan n_buffers =
     (let bufsize = AlignedAlloc_round A (n_samp * n_chan * sizeof_T);
          bufs = (if new_ok then Some (replicate (unat n_buffers) DMABuffer_default)
                  else None);
          mem = fst (AlignedAlloc_malloc A sys_malloc (n_buffers * bufsize));
          p0 = \<lparr>freeq = [], readyq = [], buffers = bufs, pool_mem = mem\<rparr>
      in if bufs \<noteq> None \<and> mem \<noteq> 0
         then fold (pool_init n_samp n_chan mem bufsize) [0..<unat n_buffers] p0
         else p0)"

definition writable :: "DMABufferPool \<Rightarrow> bool" where
  "writable p = (\<not> LLQueue_empty (freeq p))"

definition readable :: "DMABufferPool \<Rightarrow> bool" where
  "readable p = (\<not> LLQueue_empty (readyq p))"

definition allocate :: "DMABufferPool \<Rightarrow> bufref option \<times> DMABufferPool" where
  "allocate p = (let (r, q) = LLQueue_pop (freeq p) in (r, p\<lparr>freeq := q\<rparr>))"

definition enqueue :: "bufref \<Rightarrow> DMABufferPool \<Rightarrow> DMABufferPool" where
  "enqueue r p = p\<lparr>readyq := LLQueue_push r (readyq p)\<rparr>"

definition dequeue :: "DMABufferPool \<Rightarrow> bufref option \<times> DMABufferPool" where
  "dequeue p = (let (r, q) = LLQueue_pop (readyq p) in (r, p\<lparr>readyq := q\<rparr>))"

text \<open>
  \<open>deref\<close> reads the buffer object behind a reference: an element of the pool's array,
  or the default-constructed \<open>NULLBUF\<close>. A reference into an array that is not there
  (or beyond its end) is the error \<open>Dangling\<close>.
\<close>

definition deref :: "DMABufferPool \<Rightarrow> bufref \<Rightarrow> error + DMABuffer" where
  "deref p r =
     (case r of
        NULLBUF \<Rightarrow> Inr DMABuffer_default
      | Buf i \<Rightarrow>
          (case buffers p of
             None \<Rightarrow> Inl Dangling
           | Some bs \<Rightarrow> if i < length bs then Inr (bs ! i) else Inl Dangling))"

text \<open>
  \<^verbatim>\<open>DMABufferPool::release(buf)\<close>: \<^verbatim>\<open>buf->clrflags()\<close> with the default mask
  \<^verbatim>\<open>0xFFFFFFFF\<close>, then the push. The flags of \<open>NULLBUF\<close> are not part of the pool.
\<close>

definition DMABufferPool_release :: "bufref \<Rightarrow> DMABufferPool \<Rightarrow> error + DMABufferPool" where
  "DMABufferPool_release r p =
     (case deref p r of
        Inl e \<Rightarrow> Inl e
      | Inr b \<Rightarrow>
          Inr (p\<lparr>buffers := (case r of
                              Buf i \<Rightarrow> map_option (\<lambda>bs. bs[i := clrflags 0xFFFFFFFF b]) (buffers p)
                            | NULLBUF \<Rightarrow> buffers p),
                 freeq := LLQueue_push r (freeq p)\<rparr>))"

text \<open>\<^verbatim>\<open>DMABuffer::release()\<close>, on the buffer behind \<open>r\<close>.\<close>

definition DMABuffer_release :: "bufref \<Rightarrow> DMABufferPool \<Rightarrow> error + DMABufferPool" where
  "DMABuffer_release r p =
     (case deref p r of
        Inl e \<Rightarrow> Inl e
      | Inr b \<Rightarrow> if b_pool b \<and> ptr b \<noteq> 0 then DMABufferPool_release r p else Inr p)"

section \<open>The channel descriptor (AdvancedDAC.cpp, lines 5-75)\<close>

text \<open>
  The calls into the hardware layer (HAL, cache maintenance) are external. The model
  records them, with their arguments, in the order in which the code issues them.
\<close>

datatype hal_call =
    SCB_CleanDCache_by_Addr addr size_t
  | SCB_InvalidateDCache_by_Addr addr size_t
  | HAL_TIM_Base_Stop
  | HAL_DAC_Stop_DMA "32 word"
  | HAL_DAC_Start_DMA "32 word" addr size_t "32 word"
  | hal_dma_enable_dbm addr addr
  | HAL_TIM_Base_Start
  | hal_dma_update_memory addr
  | hal_dma_config
  | hal_dac_config "32 word"
  | HAL_LINKDMA nat
  | hal_tim_config "32 word"

text \<open>
  The constants of the vendor's HAL header, which is not part of the repository, with the
  values they have there. The model uses only that the two channels differ.
\<close>

definition DAC_CHANNEL_1 :: "32 word" where
  "DAC_CHANNEL_1 = 0x00"

definition DAC_CHANNEL_2 :: "32 word" where
  "DAC_CHANNEL_2 = 0x10"

definition DAC_ALIGN_12B_R :: "32 word" where
  "DAC_ALIGN_12B_R = 0x00"

definition DAC_ALIGN_8B_R :: "32 word" where
  "DAC_ALIGN_8B_R = 0x08"

text \<open>
  \<^verbatim>\<open>dac_descr_t\<close>: the handles of the peripheral, the DMA stream and the timer are
  opaque to the code and left out; \<open>hal\<close> is the record of the external calls made for
  this channel. \<open>dmabuf\<close> is the array of the two in-flight slots.
\<close>

record dac_descr_t =
  channel :: "32 word"
  resolution :: "32 word"
  pool :: "DMABufferPool option"
  dmabuf :: "bufref option list"
  hal :: "hal_call list"

definition dac_descr_all_init :: "dac_descr_t list" where
  "dac_descr_all_init =
     [\<lparr>channel = DAC_CHANNEL_1, resolution = DAC_ALIGN_12B_R, pool = None,
       dmabuf = [None, None], hal = []\<rparr>,
      \<lparr>channel = DAC_CHANNEL_2, resolution = DAC_ALIGN_12B_R, pool = None,
       dmabuf = [None, None], hal = []\<rparr>]"

definition DAC_RES_LUT :: "32 word list" where
  "DAC_RES_LUT = [DAC_ALIGN_8B_R, DAC_ALIGN_12B_R, DAC_ALIGN_12B_R]"

definition DAC_CHAN_LUT :: "32 word list" where
  "DAC_CHAN_LUT = [DAC_CHANNEL_1, DAC_CHANNEL_2]"

text \<open>A pointer to a descriptor is its index in \<open>dac_descr_all\<close>; \<open>None\<close> is \<^verbatim>\<open>NULL\<close>.\<close>

definition dac_descr_get :: "32 word \<Rightarrow> nat option" where
  "dac_descr_get ch =
     (if ch = DAC_CHANNEL_1 then Some 0
      else if ch = DAC_CHANNEL_2 then Some 1
      else None)"

text \<open>\<^verbatim>\<open>DMABuffer::flush()\<close>: the cache clean it issues, if any.\<close>

definition flush :: "size_t \<Rightarrow> DMABuffer \<Rightarrow> hal_call list" where
  "flush sizeof_T b =
     (if ptr b \<noteq> 0 then [SCB_CleanDCache_by_Addr (data b) (bytes sizeof_T b)] else [])"

text \<open>\<^verbatim>\<open>DMABuffer::invalidate()\<close>, likewise.\<close>

definition invalidate :: "size_t \<Rightarrow> DMABuffer \<Rightarrow> hal_call list" where
  "invalidate sizeof_T b =
     (if ptr b \<noteq> 0 then [SCB_InvalidateDCache_by_Addr (data b) (bytes sizeof_T b)] else [])"

text \<open>Reading through a buffer pointer that may be null.\<close>

definition deref_opt :: "DMABufferPool \<Rightarrow> bufref option \<Rightarrow> error + DMABuffer" where
  "deref_opt p r = (case r of None \<Rightarrow> Inl NullDeref | Some r' \<Rightarrow> deref p r')"

text \<open>
  \<^verbatim>\<open>descr->dmabuf[i]->release()\<close>. The buffers live in the pool's array: once the pool
  is deleted a reference into it dangles.
\<close>

definition release_on :: "bufref \<Rightarrow> dac_descr_t \<Rightarrow> error + dac_descr_t" where
  "release_on r d =
     (case pool d of
        None \<Rightarrow> (case r of NULLBUF \<Rightarrow> Inr d | Buf i \<Rightarrow> Inl Dangling)
      | Some p \<Rightarrow>
          (case DMABuffer_release r p of
             Inl e \<Rightarrow> Inl e
           | Inr p' \<Rightarrow> Inr (d\<lparr>pool := Some p'\<rparr>)))"

text \<open>The loop of \<^verbatim>\<open>dac_descr_deinit\<close> over the slots, given the indices still to visit.\<close>

fun release_loop :: "nat list \<Rightarrow> dac_descr_t \<Rightarrow> error + dac_descr_t" where
  "release_loop [] d = Inr d"
| "release_loop (i # rest) d =
     (case dmabuf d ! i of
        None \<Rightarrow> release_loop rest d
      | Some r \<Rightarrow>
          (case release_on r d of
             Inl e \<Rightarrow> Inl e
           | Inr d1 \<Rightarrow> release_loop rest (d1\<lparr>dmabuf := (dmabuf d1)[i := None]\<rparr>)))"

text \<open>The body of \<^verbatim>\<open>dac_descr_deinit\<close> for a descriptor that is not null.\<close>

definition dac_descr_deinit_on :: "bool \<Rightarrow> dac_descr_t \<Rightarrow> error + dac_descr_t" where
  "dac_descr_deinit_on dealloc_pool d =
     (let d1 = d\<lparr>hal := hal d @ [HAL_TIM_Base_Stop, HAL_DAC_Stop_DMA (channel d)]\<rparr>;
          d2 = (if dealloc_pool then d1\<lparr>pool := None\<rparr> else d1)
      in release_loop [0..<length (dmabuf d2)] d2)"

section \<open>AdvancedDAC (AdvancedDAC.cpp, lines 77-196)\<close>

text \<open>
  The body of \<^verbatim>\<open>AdvancedDAC::write\<close> on the descriptor \<^verbatim>\<open>descr\<close> points to.
  \<^verbatim>\<open>readable()\<close> returns a \<^verbatim>\<open>bool\<close>, which the comparison with 2 promotes to the
  integer 0 or 1.
\<close>

definition write_on :: "size_t \<Rightarrow> bufref \<Rightarrow> dac_descr_t \<Rightarrow> error + dac_descr_t" where
  "write_on sizeof_T r d =
     (case pool d of
        None \<Rightarrow> Inl NullDeref
      | Some p \<Rightarrow>
          (case deref p r of
             Inl e \<Rightarrow> Inl e
           | Inr b \<Rightarrow>
               let p1 = enqueue r p;
                   d1 = d\<lparr>pool := Some p1, hal := hal d @ flush sizeof_T b\<rparr>
               in if dmabuf d1 ! 0 = None \<and> (2::int) < of_bool (readable p1)
                  then
                    (let (r0, p2) = dequeue p1;
                         (r1, p3) = dequeue p2;
                         d2 = d1\<lparr>pool := Some p3, dmabuf := (dmabuf d1)[0 := r0, 1 := r1]\<rparr>
                     in case deref_opt p3 r0 of
                          Inl e \<Rightarrow> Inl e
                        | Inr b0 \<Rightarrow>
                            (case deref_opt p3 r1 of
                               Inl e \<Rightarrow> Inl e
                             | Inr b1 \<Rightarrow>
                                 Inr (d2\<lparr>hal := hal d2 @
                                        [HAL_DAC_Start_DMA (channel d2) (data b0) (size_b b0)
                                           (resolution d2),
                                         hal_dma_enable_dbm (data b0) (data b1),
                                         HAL_TIM_Base_Start]\<rparr>)))
                  else Inr d1))"

text \<open>
  The body of \<^verbatim>\<open>DAC_DMAConvCplt\<close> on the descriptor of its channel. \<open>ct_bit\<close> is what
  \<^verbatim>\<open>hal_dma_get_ct(dma)\<close> reports; the slot is its negation.
\<close>

definition DAC_DMAConvCplt_on :: "bool \<Rightarrow> dac_descr_t \<Rightarrow> error + dac_descr_t" where
  "DAC_DMAConvCplt_on ct_bit d =
     (case pool d of
        None \<Rightarrow> Inl NullDeref
      | Some p \<Rightarrow>
          if readable p
          then
            (let ct = (if ct_bit then 0 else 1 :: nat) in
             case dmabuf d ! ct of
               None \<Rightarrow> Inl NullDeref
             | Some r \<Rightarrow>
                 (case DMABuffer_release r p of
                    Inl e \<Rightarrow> Inl e
                  | Inr p1 \<Rightarrow>
                      (let (r', p2) = dequeue p1 in
                       case deref_opt p2 r' of
                         Inl e \<Rightarrow> Inl e
                       | Inr b' \<Rightarrow>
                           Inr (d\<lparr>pool := Some p2, dmabuf := (dmabuf d)[ct := r'],
                                  hal := hal d @ [hal_dma_update_memory (data b')]\<rparr>))))
          else dac_descr_deinit_on False d)"

text \<open>
  The state: the static table \<open>dac_descr_all\<close> and the member \<^verbatim>\<open>descr\<close> of the
  \<^verbatim>\<open>AdvancedDAC\<close> object. \<open>on_descr k f\<close> runs \<open>f\<close> on the \<open>k\<close>-th descriptor.
\<close>

record dac_state =
  dac_descr_all :: "dac_descr_t list"
  descr :: "nat option"

definition dac_state_init :: dac_state where
  "dac_state_init = \<lparr>dac_descr_all = dac_descr_all_init, descr = None\<rparr>"

definition on_descr ::
  "nat \<Rightarrow> (dac_descr_t \<Rightarrow> error + dac_descr_t) \<Rightarrow> dac_state \<Rightarrow> error + dac_state" where
  "on_descr k f s =
     (if k < length (dac_descr_all s)
      then (case f (dac_descr_all s ! k) of
              Inl e \<Rightarrow> Inl e
            | Inr d \<Rightarrow> Inr (s\<lparr>dac_descr_all := (dac_descr_all s)[k := d]\<rparr>))
      else Inl OutOfBounds)"

definition dac_descr_deinit :: "nat option \<Rightarrow> bool \<Rightarrow> dac_state \<Rightarrow> error + dac_state" where
  "dac_descr_deinit dp dealloc_pool s =
     (case dp of
        None \<Rightarrow> Inr s
      | Some k \<Rightarrow> on_descr k (dac_descr_deinit_on dealloc_pool) s)"

definition AdvancedDAC_available :: "dac_state \<Rightarrow> error + bool" where
  "AdvancedDAC_available s =
     (case descr s of
        Some k \<Rightarrow>
          (if k < length (dac_descr_all s)
           then (case pool (dac_descr_all s ! k) of
                   None \<Rightarrow> Inl NullDeref
                 | Some p \<Rightarrow> Inr (writable p))
           else Inl OutOfBounds)
      | None \<Rightarrow> Inr False)"

definition AdvancedDAC_write :: "size_t \<Rightarrow> bufref \<Rightarrow> dac_state \<Rightarrow> error + dac_state" where
  "AdvancedDAC_write sizeof_T r s =
     (case descr s of
        None \<Rightarrow> Inl NullDeref
      | Some k \<Rightarrow> on_descr k (write_on sizeof_T r) s)"

definition DAC_DMAConvCplt :: "32 word \<Rightarrow> bool \<Rightarrow> dac_state \<Rightarrow> error + dac_state" where
  "DAC_DMAConvCplt ch ct_bit s =
     (case dac_descr_get ch of
        None \<Rightarrow> Inl NullDeref
      | Some k \<Rightarrow> on_descr k (DAC_DMAConvCplt_on ct_bit) s)"

definition HAL_DAC_ConvCpltCallbackCh1 :: "bool \<Rightarrow> dac_state \<Rightarrow> error + dac_state" where
  "HAL_DAC_ConvCpltCallbackCh1 ct_bit s = DAC_DMAConvCplt DAC_CHANNEL_1 ct_bit s"

definition HAL_DACEx_ConvCpltCallbackCh2 :: "bool \<Rightarrow> dac_state \<Rightarrow> error + dac_state" where
  "HAL_DACEx_ConvCpltCallbackCh2 ct_bit s = DAC_DMAConvCplt DAC_CHANNEL_2 ct_bit s"

text \<open>
  \<^verbatim>\<open>pool->allocate()\<close> on the bound descriptor, and the dereference of its result.
\<close>

definition allocate_on :: "dac_descr_t \<Rightarrow> error + (bufref \<times> dac_descr_t)" where
  "allocate_on d =
     (case pool d of
        None \<Rightarrow> Inl NullDeref
      | Some p \<Rightarrow>
          (let (r, p') = allocate p in
           case r of
             None \<Rightarrow> Inl NullDeref
           | Some r' \<Rightarrow> Inr (r', d\<lparr>pool := Some p'\<rparr>)))"

text \<open>
  \<^verbatim>\<open>AdvancedDAC::dequeue\<close>. \<open>dequeue_try\<close> is the function up to the wait: it returns
  \<open>NULLBUF\<close> when no descriptor is bound, a buffer of the free queue when one is
  available, and \<open>Inr None\<close> when the loop has to wait. The loop waits for an interrupt
  and checks again; the only interrupts that touch the state are the completion
  callbacks, so the second argument of \<open>AdvancedDAC_dequeue\<close> lists those that arrive
  while the call waits, each with its channel and the bit the hardware reports. The
  result \<open>Inr None\<close> says that the call has not returned when they are used up.
\<close>

definition dequeue_try :: "dac_state \<Rightarrow> error + (bufref \<times> dac_state) option" where
  "dequeue_try s =
     (case descr s of
        None \<Rightarrow> Inr (Some (NULLBUF, s))
      | Some k \<Rightarrow>
          (case AdvancedDAC_available s of
             Inl e \<Rightarrow> Inl e
           | Inr True \<Rightarrow>
               (case allocate_on (dac_descr_all s ! k) of
                  Inl e \<Rightarrow> Inl e
                | Inr (r, d) \<Rightarrow> Inr (Some (r, s\<lparr>dac_descr_all := (dac_descr_all s)[k := d]\<rparr>)))
           | Inr False \<Rightarrow> Inr None))"

fun AdvancedDAC_dequeue ::
  "dac_state \<Rightarrow> (32 word \<times> bool) list \<Rightarrow> error + (bufref \<times> dac_state) option" where
  "AdvancedDAC_dequeue s [] = dequeue_try s"
| "AdvancedDAC_dequeue s ((ch, ct_bit) # rest) =
     (case dequeue_try s of
        Inr None \<Rightarrow>
          (case DAC_DMAConvCplt ch ct_bit s of
             Inl e \<Rightarrow> Inl e
           | Inr s' \<Rightarrow> AdvancedDAC_dequeue s' rest)
      | res \<Rightarrow> res)"

definition AdvancedDAC_stop :: "dac_state \<Rightarrow> error + (int \<times> dac_state)" where
  "AdvancedDAC_stop s =
     (case dac_descr_deinit (descr s) False s of
        Inl e \<Rightarrow> Inl e
      | Inr s' \<Rightarrow> Inr (1, s'))"

definition AdvancedDAC_dtor :: "dac_state \<Rightarrow> error + dac_state" where
  "AdvancedDAC_dtor s = dac_descr_deinit (descr s) True s"

text \<open>
  What \<^verbatim>\<open>AdvancedDAC::begin\<close> takes from outside the sources: \<open>pin_channel\<close> is
  \<^verbatim>\<open>STM_PIN_CHANNEL(function)\<close> for the function the pin map gives to the first pin;
  \<open>stray\<close> is the word that a read of \<^verbatim>\<open>DAC_CHAN_LUT\<close> beyond its two entries finds
  in memory; \<open>new_pool\<close> and \<open>new_buffers\<close> tell whether the two \<^verbatim>\<open>new\<close> expressions
  give an object; \<open>sys_malloc\<close> is the C library's allocator; \<open>sizeof_Sample\<close> is the
  size of the sample type and \<open>dac_channels\<close> the member \<^verbatim>\<open>n_channels\<close> of the
  object. The configuration of the pins touches nothing of the state.
\<close>

record env =
  pin_channel :: "32 word"
  stray :: "32 word"
  new_pool :: bool
  new_buffers :: bool
  sys_malloc :: "size_t \<Rightarrow> addr"
  sizeof_Sample :: size_t
  dac_channels :: size_t

definition SCB_DCACHE_LINE_SIZE :: size_t where
  "SCB_DCACHE_LINE_SIZE = 32"

definition DAC_CHAN_LUT_at :: "env \<Rightarrow> 32 word \<Rightarrow> 32 word" where
  "DAC_CHAN_LUT_at e i =
     (if unat i < length DAC_CHAN_LUT then DAC_CHAN_LUT ! unat i else stray e)"

definition AdvancedDAC_begin ::
  "env \<Rightarrow> 32 word \<Rightarrow> 32 word \<Rightarrow> size_t \<Rightarrow> size_t \<Rightarrow> dac_state \<Rightarrow> int \<times> dac_state" where
  "AdvancedDAC_begin e res frequency n_samp n_bufs s =
     (if of_nat (length DAC_RES_LUT) \<le> res then (0, s)
      else
        let dp = dac_descr_get (DAC_CHAN_LUT_at e (pin_channel e - 1));
            s1 = s\<lparr>descr := dp\<rparr>
        in case dp of
             None \<Rightarrow> (0, s1)
           | Some k \<Rightarrow>
               (let d = dac_descr_all s1 ! k in
                if pool d \<noteq> None then (0, s1)
                else if \<not> new_pool e then (0, s1)
                else
                  let p = DMABufferPool_ctor SCB_DCACHE_LINE_SIZE (sizeof_Sample e)
                            (new_buffers e) (sys_malloc e) n_samp (dac_channels e) n_bufs;
                      d1 = d\<lparr>pool := Some p,
                             resolution := DAC_RES_LUT ! unat res,
                             hal := hal d @
                               [hal_dma_config, hal_dac_config (channel d),
                                (if channel d = DAC_CHANNEL_1 then HAL_LINKDMA 1
                                 else HAL_LINKDMA 2),
                                hal_tim_config frequency]\<rparr>
                  in (1, s1\<lparr>dac_descr_all := (dac_descr_all s1)[k := d1]\<rparr>)))"

section \<open>Traces\<close>

text \<open>Sequences of \<^verbatim>\<open>enqueue\<close> and \<^verbatim>\<open>dequeue\<close> calls on a pool.\<close>

datatype pool_op = Enqueue bufref | Dequeue

fun pool_run :: "pool_op list \<Rightarrow> DMABufferPool \<Rightarrow> DMABufferPool" where
  "pool_run [] p = p"
| "pool_run (Enqueue r # ops) p = pool_run ops (enqueue r p)"
| "pool_run (Dequeue # ops) p = pool_run ops (snd (dequeue p))"

text \<open>
  The number of buffers in the ready queue, counted from the calls alone: an enqueue adds
  one, a dequeue takes one away unless there is none.
\<close>

fun ready_count :: "pool_op list \<Rightarrow> nat \<Rightarrow> nat" where
  "ready_count [] n = n"
| "ready_count (Enqueue r # ops) n = ready_count ops (Suc n)"
| "ready_count (Dequeue # ops) n = ready_count ops (n - 1)"

text \<open>An environment in which every allocation succeeds, and a pool of four buffers.\<close>

definition env_ok :: env where
  "env_ok = \<lparr>pin_channel = 1, stray = 0xFF, new_pool = True, new_buffers = True,
             sys_malloc = (\<lambda>n. 0x20000000), sizeof_Sample = 2, dac_channels = 1\<rparr>"

definition pool4 :: DMABufferPool where
  "pool4 = DMABufferPool_ctor SCB_DCACHE_LINE_SIZE 2 True (\<lambda>n. 0x20000000) 8 1 4"

text \<open>
  \<^verbatim>\<open>DMABuffer::release()\<close> called by the application on a buffer it got from the
  bound channel.
\<close>

definition buffer_release :: "bufref \<Rightarrow> dac_state \<Rightarrow> error + dac_state" where
  "buffer_release r s =
     (case r of
        NULLBUF \<Rightarrow> Inr s
      | Buf i \<Rightarrow>
          (case descr s of
             None \<Rightarrow> Inl Dangling
           | Some k \<Rightarrow> on_descr k (release_on r) s))"

text \<open>
  The operations of the driver as seen from outside: the application acquires a buffer
  (with the completion interrupts that arrive while it waits), submits or releases a
  buffer, stops the channel, and the hardware signals a completion. A configuration is
  the state together with the buffers the application holds: those it acquired and has
  neither submitted nor released.
\<close>

datatype op =
    Acquire "(32 word \<times> bool) list"
  | Submit bufref
  | Release bufref
  | Completion "32 word" bool
  | Stop

fun step :: "size_t \<Rightarrow> op \<Rightarrow> dac_state \<times> bufref list \<Rightarrow> error + dac_state \<times> bufref list" where
  "step sz (Acquire irqs) (s, held) =
     (case AdvancedDAC_dequeue s irqs of
        Inl e \<Rightarrow> Inl e
      | Inr None \<Rightarrow> Inl Waiting
      | Inr (Some (r, s')) \<Rightarrow> Inr (s', r # held))"
| "step sz (Submit r) (s, held) =
     (if r \<in> set held
      then (case AdvancedDAC_write sz r s of
              Inl e \<Rightarrow> Inl e
            | Inr s' \<Rightarrow> Inr (s', remove1 r held))
      else Inl Misuse)"
| "step sz (Release r) (s, held) =
     (if r \<in> set held
      then (case buffer_release r s of
              Inl e \<Rightarrow> Inl e
            | Inr s' \<Rightarrow> Inr (s', remove1 r held))
      else Inl Misuse)"
| "step sz (Completion ch ct_bit) (s, held) =
     (case DAC_DMAConvCplt ch ct_bit s of
        Inl e \<Rightarrow> Inl e
      | Inr s' \<Rightarrow> Inr (s', held))"
| "step sz Stop (s, held) =
     (case AdvancedDAC_stop s of
        Inl e \<Rightarrow> Inl e
      | Inr (ret, s') \<Rightarrow> Inr (s', held))"

fun run ::
  "size_t \<Rightarrow> op list \<Rightarrow> dac_state \<times> bufref list \<Rightarrow> error + dac_state \<times> bufref list" where
  "run sz [] c = Inr c"
| "run sz (x # xs) c =
     (case step sz x c of
        Inl e \<Rightarrow> Inl e
      | Inr c' \<Rightarrow> run sz xs c')"

text \<open>
  The buffers in the in-flight slots, and the well-formedness of a descriptor bound to a
  pool of \<open>N\<close> buffers: the array is there, every buffer is bound to the pool and to
  memory, there are two slots, and the free queue, the ready queue, the slots and the
  application's buffers hold buffers of the pool, no buffer twice, \<open>N\<close> in all.
\<close>

definition inflight :: "dac_descr_t \<Rightarrow> bufref list" where
  "inflight d = concat (map (\<lambda>x. case x of None \<Rightarrow> [] | Some r \<Rightarrow> [r]) (dmabuf d))"

definition is_pool_buf :: "nat \<Rightarrow> bufref \<Rightarrow> bool" where
  "is_pool_buf N r = (case r of Buf i \<Rightarrow> i < N | NULLBUF \<Rightarrow> False)"

definition bound_buffer :: "DMABuffer \<Rightarrow> bool" where
  "bound_buffer b = (b_pool b \<and> ptr b \<noteq> 0)"

definition pool_usable :: "nat \<Rightarrow> DMABufferPool \<Rightarrow> bool" where
  "pool_usable N p =
     (case buffers p of
        None \<Rightarrow> False
      | Some bs \<Rightarrow> length bs = N \<and> list_all bound_buffer bs)"

definition partition_ok ::
  "nat \<Rightarrow> bufref list \<Rightarrow> bufref list \<Rightarrow> bufref list \<Rightarrow> bufref list \<Rightarrow> bool" where
  "partition_ok N fq rq fl held =
     (distinct (fq @ rq @ fl @ held)
      \<and> list_all (is_pool_buf N) (fq @ rq @ fl @ held)
      \<and> length fq + length rq + length fl + length held = N)"

definition descr_inv :: "nat \<Rightarrow> bufref list \<Rightarrow> dac_descr_t \<Rightarrow> bool" where
  "descr_inv N held d =
     (case pool d of
        None \<Rightarrow> False
      | Some p \<Rightarrow>
          pool_usable N p \<and> length (dmabuf d) = 2
          \<and> partition_ok N (freeq p) (readyq p) (inflight d) held)"

text \<open>
  The buffer of one slot as a list, what two descriptors share when only the pool and
  the slots may differ, and the well-formedness of a configuration whose object is bound
  to the \<open>k\<close>-th descriptor.
\<close>

definition slot_list :: "bufref option \<Rightarrow> bufref list" where
  "slot_list x = (case x of None \<Rightarrow> [] | Some r \<Rightarrow> [r])"

definition same_hw :: "dac_descr_t \<Rightarrow> dac_descr_t \<Rightarrow> bool" where
  "same_hw d d' = (hal d' = hal d \<and> channel d' = channel d \<and> resolution d' = resolution d)"

definition sys_inv :: "nat \<Rightarrow> nat \<Rightarrow> dac_state \<times> bufref list \<Rightarrow> bool" where
  "sys_inv N k c =
     (case c of
        (s, held) \<Rightarrow>
          descr s = Some k \<and> k < length (dac_descr_all s)
          \<and> descr_inv N held (dac_descr_all s ! k))"

text \<open>
  The three-way partition as the specification words it, without the buffers the
  application holds: the free queue, the ready queue and the slots are disjoint, hold
  every buffer of the pool, and their sizes add up to \<open>N\<close>.
\<close>

definition spec_partition :: "nat \<Rightarrow> dac_descr_t \<Rightarrow> bool" where
  "spec_partition N d =
     (case pool d of
        None \<Rightarrow> False
      | Some p \<Rightarrow>
          distinct (freeq p @ readyq p @ inflight d)
          \<and> set (freeq p @ readyq p @ inflight d) = set (map Buf [0..<N])
          \<and> length (freeq p) + length (readyq p) + length (inflight d) = N)"

text \<open>
  What a completion callback consumes: the buffer of the slot the hardware has finished
  when the ready queue has a successor for it, and the buffers of both slots when it has
  none.
\<close>

definition consumes :: "bool \<Rightarrow> dac_descr_t \<Rightarrow> bufref \<Rightarrow> bool" where
  "consumes ct_bit d r =
     (case pool d of
        None \<Rightarrow> False
      | Some p \<Rightarrow>
          if readable p then dmabuf d ! (if ct_bit then 0 else 1) = Some r
          else r \<in> set (inflight d))"

text \<open>
  Readings of the outcome of a trace for the \<open>k\<close>-th descriptor: the free queue, the
  ready queue, the buffers in flight and the buffers held; and the external calls.
\<close>

definition queues ::
  "nat \<Rightarrow> error + dac_state \<times> bufref list
     \<Rightarrow> error + bufref list \<times> bufref list \<times> bufref list \<times> bufref list" where
  "queues k res =
     (case res of
        Inl e \<Rightarrow> Inl e
      | Inr (s, held) \<Rightarrow>
          (case pool (dac_descr_all s ! k) of
             None \<Rightarrow> Inl NullDeref
           | Some p \<Rightarrow> Inr (freeq p, readyq p, inflight (dac_descr_all s ! k), held)))"

definition hal_calls :: "nat \<Rightarrow> error + dac_state \<times> bufref list \<Rightarrow> error + hal_call list" where
  "hal_calls k res =
     (case res of
        Inl e \<Rightarrow> Inl e
      | Inr (s, held) \<Rightarrow> Inr (hal (dac_descr_all s ! k)))"

text \<open>
  Concrete states: \<open>s4\<close> after a successful \<^verbatim>\<open>begin\<close> with four buffers of eight
  samples on the first channel; \<open>with_queues\<close> sets the queues and the slots of the first
  descriptor; \<open>s4_drained\<close> is the state of the specification's scenario in which two
  buffers are in flight and none is ready. \<open>env_nomem\<close> is an environment whose allocator
  fails.
\<close>

definition s4 :: dac_state where
  "s4 = snd (AdvancedDAC_begin env_ok 1 1000 8 4 dac_state_init)"

definition with_queues ::
  "bufref list \<Rightarrow> bufref list \<Rightarrow> bufref option list \<Rightarrow> dac_state \<Rightarrow> dac_state" where
  "with_queues fq rq sl s =
     s\<lparr>dac_descr_all := (dac_descr_all s)
         [0 := (dac_descr_all s ! 0)
                 \<lparr>pool := map_option (\<lambda>p. p\<lparr>freeq := fq, readyq := rq\<rparr>)
                            (pool (dac_descr_all s ! 0)),
                  dmabuf := sl\<rparr>]\<rparr>"

definition s4_drained :: dac_state where
  "s4_drained = with_queues [Buf 3, Buf 0] [] [Some (Buf 2), Some (Buf 1)] s4"

definition env_nomem :: env where
  "env_nomem = env_ok\<lparr>sys_malloc := (\<lambda>n. 0)\<rparr>"

text \<open>Both in-flight slots of every descriptor are empty.\<close>

definition slots_empty :: "dac_state \<Rightarrow> bool" where
  "slots_empty s = list_all (\<lambda>d. dmabuf d = [None, None]) (dac_descr_all s)"

definition trace4 :: "op list" where
  "trace4 = [Acquire [], Completion DAC_CHANNEL_1 False, Acquire [], Submit (Buf 0),
             Release (Buf 1), Stop]"

definition submit3 :: "op list" where
  "submit3 = [Acquire [], Acquire [], Acquire [],
              Submit (Buf 0), Submit (Buf 1), Submit (Buf 2)]"

section \<open>The aligned allocator and the buffer\<close>

text \<open>
  C9. \<^verbatim>\<open>AlignedAlloc<A>::malloc\<close> tests \<^verbatim>\<open>A % 2\<close>, not whether \<open>A\<close> is a power of
  two. With \<open>A = 6\<close> and a block at address 8 it returns the pointer 16, which is not
  null although 6 is not a power of two, and which is not a multiple of 6. With \<open>A = 1\<close>,
  a power of two, it returns null although the allocation would succeed. And with
  \<open>A = 32\<close> and a size of \<^verbatim>\<open>0xFFFFFFF0\<close> bytes the sum \<^verbatim>\<open>size + offset\<close> wraps to 19:
  the block asked of \<^verbatim>\<open>::malloc\<close> has 19 bytes, and the pointer returned, 32 bytes
  after its start, is not null and has no usable byte.
\<close>

theorem malloc_alignment_test:
  "AlignedAlloc_malloc 6 (\<lambda>n. 8) 16 = (16, Some (12, 8))
   \<and> \<not> is_power_of_two 6 \<and> (16 :: addr) mod 6 \<noteq> 0
   \<and> is_power_of_two 1 \<and> fst (AlignedAlloc_malloc 1 (\<lambda>n. 8) 16) = 0
   \<and> is_power_of_two 32
   \<and> AlignedAlloc_malloc 32 (\<lambda>n. if n = 19 then 0x20000000 else 0) 0xFFFFFFF0
       = (0x20000020, Some (0x2000001C, 0x20000000))"
  by (simp add: AlignedAlloc_malloc_def sizeof_ptr_def Let_def is_power_of_two_def upt_rec)



section \<open>The pool\<close>

lemma length_readyq_pool_run:
  "length (readyq (pool_run ops p)) = ready_count ops (length (readyq p))"
proof (induction ops p rule: pool_run.induct)
  case (1 p)
  show ?case by simp
next
  case (2 r ops p)
  then show ?case by (simp add: enqueue_def LLQueue_push_def)
next
  case (3 ops p)
  then show ?case
    by (cases "readyq p") (simp_all add: dequeue_def LLQueue_pop_def)
qed

text \<open>
  C1, as the code has it. After any sequence of enqueue and dequeue calls,
  \<^verbatim>\<open>readable()\<close> tells whether the ready queue holds a buffer: it is true exactly when
  the count of the buffers in the ready queue is positive.
\<close>

theorem readable_nonempty:
  "readable (pool_run ops p) = (0 < ready_count ops (length (readyq p)))"
  using length_readyq_pool_run [of ops p]
  by (simp add: readable_def LLQueue_empty_def flip: length_greater_0_conv)

text \<open>What the constructor leaves, when its allocations succeed and when they fail.\<close>

lemma fold_pool_init:
  "buffers p = Some bs \<Longrightarrow> n \<le> length bs \<Longrightarrow>
   fold (pool_init ns nc mem bsz) [0..<n] p =
     p\<lparr>buffers := Some (map (\<lambda>i. DMABuffer_ctor True ns nc (mem + of_nat i * bsz)) [0..<n]
                          @ drop n bs),
       freeq := freeq p @ map Buf [0..<n]\<rparr>"
proof (induction n)
  case 0
  then show ?case by simp
next
  case (Suc n)
  then have "n < length bs" by simp
  then have "(map (\<lambda>i. DMABuffer_ctor True ns nc (mem + of_nat i * bsz)) [0..<n] @ drop n bs)
               [n := DMABuffer_ctor True ns nc (mem + of_nat n * bsz)]
             = map (\<lambda>i. DMABuffer_ctor True ns nc (mem + of_nat i * bsz)) [0..<n]
               @ DMABuffer_ctor True ns nc (mem + of_nat n * bsz) # drop (Suc n) bs"
    by (simp add: list_update_append Cons_nth_drop_Suc [symmetric])
  with Suc show ?case
    by (simp add: pool_init_def LLQueue_push_def)
qed

lemma DMABufferPool_ctor_ok:
  assumes "fst (AlignedAlloc_malloc A sm (nb * AlignedAlloc_round A (ns * nc * sz))) = mem"
    and "mem \<noteq> 0"
  shows "DMABufferPool_ctor A sz True sm ns nc nb =
     \<lparr>freeq = map Buf [0..<unat nb], readyq = [],
      buffers = Some (map (\<lambda>i. DMABuffer_ctor True ns nc
                            (mem + of_nat i * AlignedAlloc_round A (ns * nc * sz)))
                        [0..<unat nb]),
      pool_mem = mem\<rparr>"
  using assms
  by (simp add: DMABufferPool_ctor_def Let_def fold_pool_init)

lemma DMABufferPool_ctor_fail:
  assumes "\<not> nw \<or> fst (AlignedAlloc_malloc A sm (nb * AlignedAlloc_round A (ns * nc * sz))) = 0"
  shows "freeq (DMABufferPool_ctor A sz nw sm ns nc nb) = []
       \<and> readyq (DMABufferPool_ctor A sz nw sm ns nc nb) = []"
  using assms
  by (auto simp add: DMABufferPool_ctor_def Let_def)

lemma malloc32: "fst (AlignedAlloc_malloc SCB_DCACHE_LINE_SIZE (\<lambda>n. 0x20000000) n) = 0x20000020"
  by (simp add: AlignedAlloc_malloc_def SCB_DCACHE_LINE_SIZE_def sizeof_ptr_def Let_def)

lemma pool4_eq:
  "pool4 = \<lparr>freeq = [Buf 0, Buf 1, Buf 2, Buf 3], readyq = [],
            buffers = Some [DMABuffer_ctor True 8 1 0x20000020, DMABuffer_ctor True 8 1 0x20000040,
                            DMABuffer_ctor True 8 1 0x20000060, DMABuffer_ctor True 8 1 0x20000080],
            pool_mem = 0x20000020\<rparr>"
  unfolding pool4_def DMABufferPool_ctor_ok [OF malloc32, simplified]
  by (simp add: upt_rec AlignedAlloc_round_def SCB_DCACHE_LINE_SIZE_def)

lemma pool4_usable: "pool_usable 4 pool4"
  by (simp add: pool4_eq pool_usable_def bound_buffer_def DMABuffer_ctor_def)

text \<open>
  C1, as stated, fails: with two buffers in the ready queue \<^verbatim>\<open>readable()\<close> is
  \<^verbatim>\<open>true\<close>, the integer 1, and not the count 2.
\<close>

theorem readable_count_counterexample:
  "of_bool (readable (pool_run [Enqueue (Buf 0), Enqueue (Buf 1)] pool4)) = (1 :: nat)
   \<and> length (readyq (pool_run [Enqueue (Buf 0), Enqueue (Buf 1)] pool4)) = 2"
  by (simp add: pool4_eq readable_def LLQueue_empty_def enqueue_def LLQueue_push_def)

section \<open>Moving buffers between the queues, the slots and the application\<close>

lemma partition_acquire:
  "partition_ok N (r # fq) rq fl held \<Longrightarrow> partition_ok N fq rq fl (r # held)"
  by (auto simp: partition_ok_def)

lemma partition_submit:
  "r \<in> set held \<Longrightarrow> partition_ok N fq rq fl held
     \<Longrightarrow> partition_ok N fq (rq @ [r]) fl (remove1 r held)"
  using length_pos_if_in_set [of r held]
  by (auto simp: partition_ok_def length_remove1 list_all_iff dest: notin_set_remove1)

lemma partition_release:
  "r \<in> set held \<Longrightarrow> partition_ok N fq rq fl held
     \<Longrightarrow> partition_ok N (fq @ [r]) rq fl (remove1 r held)"
  using length_pos_if_in_set [of r held]
  by (auto simp: partition_ok_def length_remove1 list_all_iff dest: notin_set_remove1)

lemma partition_swap:
  "partition_ok N fq (r' # rq) (fl1 @ r # fl2) held
     \<Longrightarrow> partition_ok N (fq @ [r]) rq (fl1 @ r' # fl2) held"
  by (auto simp: partition_ok_def)

lemma partition_mem:
  "partition_ok N fq rq fl held \<Longrightarrow> r \<in> set (fq @ rq @ fl @ held) \<Longrightarrow> is_pool_buf N r"
  by (auto simp: partition_ok_def list_all_iff)

lemma DMABuffer_release_usable:
  assumes "pool_usable N p" "is_pool_buf N r"
  shows "\<exists>p'. DMABuffer_release r p = Inr p' \<and> freeq p' = freeq p @ [r]
           \<and> readyq p' = readyq p \<and> pool_usable N p' \<and> pool_mem p' = pool_mem p"
proof -
  from assms obtain bs where bs: "buffers p = Some bs" "length bs = N" "list_all bound_buffer bs"
    by (auto simp: pool_usable_def split: option.splits)
  from assms(2) obtain i where i: "r = Buf i" "i < N"
    by (cases r) (auto simp: is_pool_buf_def)
  have b: "bound_buffer (bs ! i)"
    using bs i by (simp add: list_all_length)
  have il: "i < length bs"
    using bs i by simp
  have "list_all bound_buffer (bs[i := clrflags 0xFFFFFFFF (bs ! i)])"
    using bs b il by (auto simp: list_all_length nth_list_update bound_buffer_def clrflags_def)
  then show ?thesis
    using bs i b
    by (simp add: DMABuffer_release_def DMABufferPool_release_def deref_def bound_buffer_def
        LLQueue_push_def pool_usable_def)
qed


lemma partition_unslot:
  "partition_ok N fq rq (fl1 @ r # fl2) held \<Longrightarrow> partition_ok N (fq @ [r]) rq (fl1 @ fl2) held"
  by (auto simp: partition_ok_def)

lemma inflight_split:
  assumes "i < length (dmabuf d)" "dmabuf d ! i = Some r"
  shows "\<exists>fl1 fl2. inflight d = fl1 @ r # fl2
           \<and> (\<forall>v f. inflight (d\<lparr>pool := f, dmabuf := (dmabuf d)[i := v]\<rparr>)
                  = fl1 @ (case v of None \<Rightarrow> [] | Some r' \<Rightarrow> [r']) @ fl2)"
proof -
  let ?ol = "\<lambda>x. case x of None \<Rightarrow> [] | Some r \<Rightarrow> [r]"
  let ?xs = "dmabuf d"
  have a: "?xs = take i ?xs @ Some r # drop (Suc i) ?xs"
    using assms by (metis id_take_nth_drop)
  have b: "?xs[i := v] = take i ?xs @ v # drop (Suc i) ?xs" for v
    using assms by (simp add: upd_conv_take_nth_drop)
  have "inflight d = concat (map ?ol (take i ?xs)) @ r # concat (map ?ol (drop (Suc i) ?xs))"
    unfolding inflight_def by (subst a) simp
  moreover have "inflight (d\<lparr>pool := f, dmabuf := ?xs[i := v]\<rparr>)
      = concat (map ?ol (take i ?xs)) @ ?ol v @ concat (map ?ol (drop (Suc i) ?xs))" for v f
    unfolding inflight_def by (simp add: b)
  ultimately show ?thesis by blast
qed

lemma write_on_never_starts:
  "write_on sz r d =
     (case pool d of
        None \<Rightarrow> Inl NullDeref
      | Some p \<Rightarrow>
          (case deref p r of
             Inl e \<Rightarrow> Inl e
           | Inr b \<Rightarrow> Inr (d\<lparr>pool := Some (enqueue r p), hal := hal d @ flush sz b\<rparr>)))"
  by (simp add: write_on_def Let_def split: option.splits sum.splits)

lemma deref_usable:
  "pool_usable N p \<Longrightarrow> is_pool_buf N r \<Longrightarrow> \<exists>b. deref p r = Inr b \<and> bound_buffer b"
  by (cases r) (auto simp: pool_usable_def is_pool_buf_def deref_def list_all_length
      split: option.splits)

lemma write_on_inv:
  assumes "descr_inv N held d" "r \<in> set held"
  shows "\<exists>d'. write_on sz r d = Inr d' \<and> descr_inv N (remove1 r held) d'"
proof -
  from assms(1) obtain p where p: "pool d = Some p" "pool_usable N p" "length (dmabuf d) = 2"
    "partition_ok N (freeq p) (readyq p) (inflight d) held"
    by (auto simp: descr_inv_def split: option.splits)
  have "is_pool_buf N r"
    using partition_mem [OF p(4)] assms(2) by simp
  then obtain b where b: "deref p r = Inr b"
    using deref_usable [OF p(2)] by blast
  show ?thesis
    using p b partition_submit [OF assms(2) p(4)]
    by (simp add: write_on_never_starts descr_inv_def enqueue_def LLQueue_push_def
        pool_usable_def inflight_def)
qed

lemma release_on_inv:
  assumes "descr_inv N held d" "r \<in> set held"
  shows "\<exists>d'. release_on r d = Inr d' \<and> descr_inv N (remove1 r held) d'"
proof -
  from assms(1) obtain p where p: "pool d = Some p" "pool_usable N p" "length (dmabuf d) = 2"
    "partition_ok N (freeq p) (readyq p) (inflight d) held"
    by (auto simp: descr_inv_def split: option.splits)
  have "is_pool_buf N r"
    using partition_mem [OF p(4)] assms(2) by simp
  then obtain p' where p': "DMABuffer_release r p = Inr p'" "freeq p' = freeq p @ [r]"
    "readyq p' = readyq p" "pool_usable N p'"
    using DMABuffer_release_usable [OF p(2)] by blast
  show ?thesis
    using p p' partition_release [OF assms(2) p(4)]
    by (simp add: release_on_def descr_inv_def inflight_def)
qed

lemma allocate_on_inv:
  assumes "descr_inv N held d" "pool d = Some p" "writable p"
  shows "\<exists>r d'. allocate_on d = Inr (r, d') \<and> descr_inv N (r # held) d'"
proof -
  from assms obtain r fq where fq: "freeq p = r # fq"
    by (cases "freeq p") (auto simp: writable_def LLQueue_empty_def)
  from assms have p: "pool_usable N p" "length (dmabuf d) = 2"
    "partition_ok N (freeq p) (readyq p) (inflight d) held"
    by (auto simp: descr_inv_def)
  show ?thesis
    using assms(2) p fq partition_acquire [of N r fq "readyq p" "inflight d" held]
    by (simp add: allocate_on_def allocate_def LLQueue_pop_def descr_inv_def pool_usable_def
        inflight_def)
qed


lemma release_slot:
  assumes "descr_inv N held d" "i < length (dmabuf d)" "dmabuf d ! i = Some r" "pool d = Some p"
  shows "\<exists>p'. release_on r d = Inr (d\<lparr>pool := Some p'\<rparr>)
           \<and> freeq p' = freeq p @ [r] \<and> readyq p' = readyq p \<and> pool_mem p' = pool_mem p
           \<and> descr_inv N held (d\<lparr>pool := Some p', dmabuf := (dmabuf d)[i := None]\<rparr>)"
proof -
  from assms have p: "pool_usable N p" "length (dmabuf d) = 2"
    "partition_ok N (freeq p) (readyq p) (inflight d) held"
    by (auto simp: descr_inv_def)
  obtain fl1 fl2 where fl: "inflight d = fl1 @ r # fl2"
    "\<And>v f. inflight (d\<lparr>pool := f, dmabuf := (dmabuf d)[i := v]\<rparr>)
        = fl1 @ (case v of None \<Rightarrow> [] | Some r' \<Rightarrow> [r']) @ fl2"
    using inflight_split [OF assms(2,3)] by blast
  have "is_pool_buf N r"
    using partition_mem [OF p(3)] fl(1) by simp
  then obtain p' where p': "DMABuffer_release r p = Inr p'" "freeq p' = freeq p @ [r]"
    "readyq p' = readyq p" "pool_usable N p'" "pool_mem p' = pool_mem p"
    using DMABuffer_release_usable [OF p(1)] by blast
  have "partition_ok N (freeq p @ [r]) (readyq p) (fl1 @ fl2) held"
    using p(3) fl(1) partition_unslot by simp
  then have "descr_inv N held (d\<lparr>pool := Some p', dmabuf := (dmabuf d)[i := None]\<rparr>)"
    using p p' fl(2) by (simp add: descr_inv_def)
  then show ?thesis
    using assms(4) p' by (intro exI [of _ p']) (simp add: release_on_def)
qed

lemma release_loop_inv:
  assumes "descr_inv N held d" "pool d = Some p" "distinct js" "\<forall>j\<in>set js. j < length (dmabuf d)"
  shows "\<exists>d' p'. release_loop js d = Inr d' \<and> pool d' = Some p' \<and> same_hw d d'
           \<and> descr_inv N held d'
           \<and> freeq p' = freeq p @ concat (map (\<lambda>j. slot_list (dmabuf d ! j)) js)
           \<and> readyq p' = readyq p \<and> pool_mem p' = pool_mem p
           \<and> length (dmabuf d') = length (dmabuf d)
           \<and> (\<forall>j < length (dmabuf d). dmabuf d' ! j = (if j \<in> set js then None else dmabuf d ! j))"
  using assms
proof (induction js arbitrary: d p)
  case Nil
  then show ?case
    by (simp add: slot_list_def same_hw_def)
next
  case (Cons i js)
  show ?case
  proof (cases "dmabuf d ! i")
    case None
    obtain d' p' where *: "release_loop js d = Inr d'" "pool d' = Some p'" "same_hw d d'"
      "descr_inv N held d'"
      "freeq p' = freeq p @ concat (map (\<lambda>j. slot_list (dmabuf d ! j)) js)"
      "readyq p' = readyq p" "length (dmabuf d') = length (dmabuf d)"
      "\<forall>j < length (dmabuf d). dmabuf d' ! j = (if j \<in> set js then None else dmabuf d ! j)"
      "pool_mem p' = pool_mem p"
      using Cons.IH [of d p] Cons.prems by auto
    show ?thesis
      using None *
      by (intro exI [of _ d'] exI [of _ p']) (auto simp: slot_list_def)
  next
    case (Some r)
    let ?xs = "(dmabuf d)[i := None]"
    from Cons.prems have i: "i < length (dmabuf d)" "i \<notin> set js" "distinct js"
      by auto
    obtain p1 where p1: "release_on r d = Inr (d\<lparr>pool := Some p1\<rparr>)"
      "freeq p1 = freeq p @ [r]" "readyq p1 = readyq p"
      "descr_inv N held (d\<lparr>pool := Some p1, dmabuf := ?xs\<rparr>)" "pool_mem p1 = pool_mem p"
      using release_slot [OF Cons.prems(1) i(1) Some Cons.prems(2)] by blast
    let ?d1 = "d\<lparr>pool := Some p1, dmabuf := ?xs\<rparr>"
    obtain d' p' where *: "release_loop js ?d1 = Inr d'" "pool d' = Some p'" "same_hw ?d1 d'"
      "descr_inv N held d'"
      "freeq p' = freeq p1 @ concat (map (\<lambda>j. slot_list (dmabuf ?d1 ! j)) js)"
      "readyq p' = readyq p1" "length (dmabuf d') = length (dmabuf ?d1)"
      "\<forall>j < length (dmabuf ?d1). dmabuf d' ! j = (if j \<in> set js then None else dmabuf ?d1 ! j)"
      "pool_mem p' = pool_mem p1"
      using Cons.IH [of ?d1 p1] p1(4) i Cons.prems(4) by auto
    have same: "map (\<lambda>j. slot_list (?xs ! j)) js = map (\<lambda>j. slot_list (dmabuf d ! j)) js"
    proof (intro map_cong refl)
      fix x assume "x \<in> set js"
      then have "i \<noteq> x" using i(2) by auto
      then show "slot_list (?xs ! x) = slot_list (dmabuf d ! x)" by simp
    qed
    have r: "slot_list (dmabuf d ! i) = [r]"
      using Some by (simp add: slot_list_def)
    have fq: "freeq p' = freeq p @ concat (map (\<lambda>j. slot_list (dmabuf d ! j)) (i # js))"
      using *(5) p1(2) same r by simp
    have nth: "\<forall>j < length (dmabuf d).
        dmabuf d' ! j = (if j \<in> set (i # js) then None else dmabuf d ! j)"
      using *(8) by (auto simp: nth_list_update)
    have run: "release_loop (i # js) d = Inr d'"
      using Some p1(1) *(1) by simp
    have hw: "same_hw d d'"
      using *(3) by (simp add: same_hw_def)
    show ?thesis
      using run hw fq nth *(2,4,6,7,9) p1(3,5)
      by (intro exI [of _ d'] exI [of _ p']) simp
  qed
qed

lemma inflight_two: "dmabuf d = [a, b] \<Longrightarrow> inflight d = slot_list a @ slot_list b"
  by (simp add: inflight_def slot_list_def)

lemma length_two: "length xs = 2 \<Longrightarrow> \<exists>a b. xs = [a, b]"
  by (cases xs; cases "tl xs") auto

lemma dac_descr_deinit_on_inv:
  assumes "descr_inv N held d" "pool d = Some p"
  shows "\<exists>d' p'. dac_descr_deinit_on False d = Inr d' \<and> pool d' = Some p'
           \<and> descr_inv N held d'
           \<and> hal d' = hal d @ [HAL_TIM_Base_Stop, HAL_DAC_Stop_DMA (channel d)]
           \<and> channel d' = channel d \<and> resolution d' = resolution d
           \<and> dmabuf d' = [None, None]
           \<and> freeq p' = freeq p @ inflight d \<and> readyq p' = readyq p
           \<and> buffers p' \<noteq> None \<and> pool_mem p' = pool_mem p"
proof -
  let ?d1 = "d\<lparr>hal := hal d @ [HAL_TIM_Base_Stop, HAL_DAC_Stop_DMA (channel d)]\<rparr>"
  from assms have len: "length (dmabuf d) = 2"
    by (simp add: descr_inv_def)
  then obtain a b where ab: "dmabuf d = [a, b]"
    using length_two by blast
  have inv1: "descr_inv N held ?d1"
    using assms by (simp add: descr_inv_def inflight_def)
  have up: "[0..<length (dmabuf ?d1)] = [0, 1]"
    using len by (simp add: upt_rec)
  obtain d' p' where *: "release_loop [0, 1] ?d1 = Inr d'" "pool d' = Some p'" "same_hw ?d1 d'"
    "descr_inv N held d'"
    "freeq p' = freeq p @ concat (map (\<lambda>j. slot_list (dmabuf ?d1 ! j)) [0, 1])"
    "readyq p' = readyq p" "length (dmabuf d') = length (dmabuf ?d1)"
    "\<forall>j < length (dmabuf ?d1). dmabuf d' ! j = (if j \<in> set [0, 1] then None else dmabuf ?d1 ! j)"
    "pool_mem p' = pool_mem p"
    using release_loop_inv [OF inv1, of p "[0, 1]"] assms(2) len by auto
  have "dmabuf d' = [None, None]"
    using *(7,8) len by (intro nth_equalityI) (auto simp: less_Suc_eq numeral_2_eq_2)
  moreover have "buffers p' \<noteq> None"
    using *(2,4) by (auto simp: descr_inv_def pool_usable_def split: option.splits)
  ultimately show ?thesis
    using * ab up
    by (auto simp: dac_descr_deinit_on_def same_hw_def inflight_two)
qed


lemma Cplt_on_refill:
  assumes "descr_inv N held d" "pool d = Some p" "readable p"
    and "dmabuf d ! (if ct_bit then 0 else 1) = Some r"
  shows "\<exists>d' p' r' rq b'. DAC_DMAConvCplt_on ct_bit d = Inr d' \<and> pool d' = Some p'
           \<and> descr_inv N held d'
           \<and> readyq p = r' # rq \<and> readyq p' = rq \<and> freeq p' = freeq p @ [r]
           \<and> dmabuf d' = (dmabuf d)[(if ct_bit then 0 else 1) := Some r']
           \<and> deref p' r' = Inr b'
           \<and> hal d' = hal d @ [hal_dma_update_memory (data b')]"
proof -
  let ?ct = "if ct_bit then 0 else 1 :: nat"
  from assms have p: "pool_usable N p" "length (dmabuf d) = 2"
    "partition_ok N (freeq p) (readyq p) (inflight d) held"
    by (auto simp: descr_inv_def)
  have ct: "?ct < length (dmabuf d)"
    using p(2) by simp
  obtain fl1 fl2 where fl: "inflight d = fl1 @ r # fl2"
    "\<And>v f. inflight (d\<lparr>pool := f, dmabuf := (dmabuf d)[?ct := v]\<rparr>)
        = fl1 @ (case v of None \<Rightarrow> [] | Some r' \<Rightarrow> [r']) @ fl2"
    using inflight_split [OF ct assms(4)] by blast
  have "is_pool_buf N r"
    using partition_mem [OF p(3)] fl(1) by simp
  then obtain p1 where p1: "DMABuffer_release r p = Inr p1" "freeq p1 = freeq p @ [r]"
    "readyq p1 = readyq p" "pool_usable N p1"
    using DMABuffer_release_usable [OF p(1)] by blast
  from assms(3) obtain r' rq where rq: "readyq p = r' # rq"
    by (cases "readyq p") (auto simp: readable_def LLQueue_empty_def)
  let ?p2 = "p1\<lparr>readyq := rq\<rparr>"
  have dq: "dequeue p1 = (Some r', ?p2)"
    using p1(3) rq by (simp add: dequeue_def LLQueue_pop_def)
  have us: "pool_usable N ?p2"
    using p1(4) by (simp add: pool_usable_def)
  have "is_pool_buf N r'"
    using partition_mem [OF p(3)] rq by simp
  then obtain b' where b': "deref ?p2 r' = Inr b'"
    using deref_usable [OF us] by blast
  let ?d' = "d\<lparr>pool := Some ?p2, dmabuf := (dmabuf d)[?ct := Some r'],
               hal := hal d @ [hal_dma_update_memory (data b')]\<rparr>"
  have eq: "DAC_DMAConvCplt_on ct_bit d = Inr ?d'"
    using assms(2,3,4) p1(1) dq b'
    by (simp add: DAC_DMAConvCplt_on_def deref_opt_def)
  have part: "partition_ok N (freeq p @ [r]) rq (fl1 @ r' # fl2) held"
    using p(3) rq fl(1) partition_swap by simp
  have infl: "inflight ?d' = fl1 @ r' # fl2"
    using fl(2) [of "Some r'" "Some ?p2"] by (simp add: inflight_def)
  have "descr_inv N held ?d'"
    using us p(2) part infl p1(2) by (simp add: descr_inv_def)
  then show ?thesis
    using eq rq p1(2) b'
    by (intro exI [of _ ?d'] exI [of _ ?p2] exI [of _ r'] exI [of _ rq] exI [of _ b']) simp
qed

lemma Cplt_on_underrun:
  "pool d = Some p \<Longrightarrow> \<not> readable p
     \<Longrightarrow> DAC_DMAConvCplt_on ct_bit d = dac_descr_deinit_on False d"
  by (simp add: DAC_DMAConvCplt_on_def)

lemma Cplt_on_inv:
  assumes "descr_inv N held d" "DAC_DMAConvCplt_on ct_bit d = Inr d'"
  shows "descr_inv N held d'"
proof -
  from assms(1) obtain p where p: "pool d = Some p"
    by (auto simp: descr_inv_def split: option.splits)
  show ?thesis
  proof (cases "readable p")
    case True
    show ?thesis
    proof (cases "dmabuf d ! (if ct_bit then 0 else 1)")
      case None
      then show ?thesis
        using assms(2) p True by (simp add: DAC_DMAConvCplt_on_def)
    next
      case (Some r)
      show ?thesis
        using Cplt_on_refill [OF assms(1) p True Some] assms(2) by auto
    qed
  next
    case False
    show ?thesis
      using dac_descr_deinit_on_inv [OF assms(1) p] Cplt_on_underrun [OF p False, of ct_bit]
        assms(2)
      by auto
  qed
qed

section \<open>The operations keep a configuration well-formed\<close>

lemma on_descr_other:
  assumes "sys_inv N k (s, held)" "on_descr j f s = Inr s'" "j \<noteq> k"
  shows "sys_inv N k (s', held)"
  using assms
  by (auto simp: sys_inv_def on_descr_def split: if_splits sum.splits)

lemma on_descr_same:
  assumes "sys_inv N k (s, held)" "on_descr k f s = Inr s'"
    and "\<And>d'. f (dac_descr_all s ! k) = Inr d' \<Longrightarrow> descr_inv N held' d'"
  shows "sys_inv N k (s', held')"
  using assms
  by (auto simp: sys_inv_def on_descr_def split: if_splits sum.splits)

lemma Cplt_sys_inv:
  assumes "sys_inv N k (s, held)" "DAC_DMAConvCplt ch ct_bit s = Inr s'"
  shows "sys_inv N k (s', held)"
proof -
  from assms(2) obtain j where j: "dac_descr_get ch = Some j"
    "on_descr j (DAC_DMAConvCplt_on ct_bit) s = Inr s'"
    by (auto simp: DAC_DMAConvCplt_def split: option.splits)
  show ?thesis
  proof (cases "j = k")
    case True
    have "descr_inv N held (dac_descr_all s ! k)"
      using assms(1) by (simp add: sys_inv_def)
    then show ?thesis
      using on_descr_same [OF assms(1), of "DAC_DMAConvCplt_on ct_bit" s' held] j(2) True
        Cplt_on_inv
      by blast
  next
    case False
    then show ?thesis
      using on_descr_other [OF assms(1) j(2)] by simp
  qed
qed

lemma dequeue_try_inv:
  assumes "sys_inv N k (s, held)" "dequeue_try s = Inr (Some (r, s'))"
  shows "sys_inv N k (s', r # held)"
proof -
  from assms(1) have k: "descr s = Some k" "k < length (dac_descr_all s)"
    "descr_inv N held (dac_descr_all s ! k)"
    by (auto simp: sys_inv_def)
  then obtain p where p: "pool (dac_descr_all s ! k) = Some p"
    by (auto simp: descr_inv_def split: option.splits)
  have av: "AdvancedDAC_available s = Inr (writable p)"
    using k p by (simp add: AdvancedDAC_available_def)
  show ?thesis
  proof (cases "writable p")
    case True
    obtain r0 d' where a: "allocate_on (dac_descr_all s ! k) = Inr (r0, d')"
      "descr_inv N (r0 # held) d'"
      using allocate_on_inv [OF k(3) p True] by blast
    then show ?thesis
      using assms(2) k(1,2) av True
      by (auto simp: dequeue_try_def sys_inv_def)
  next
    case False
    then show ?thesis
      using assms(2) k(1) av by (simp add: dequeue_try_def)
  qed
qed

lemma dequeue_sys_inv:
  assumes "sys_inv N k (s, held)" "AdvancedDAC_dequeue s irqs = Inr (Some (r, s'))"
  shows "sys_inv N k (s', r # held)"
  using assms
proof (induction irqs arbitrary: s)
  case Nil
  then show ?case
    using dequeue_try_inv by simp
next
  case (Cons irq irqs)
  obtain ch ct_bit where irq: "irq = (ch, ct_bit)"
    by (cases irq)
  show ?case
  proof (cases "dequeue_try s")
    case (Inl e)
    then show ?thesis
      using Cons.prems(2) irq by simp
  next
    case (Inr res)
    show ?thesis
    proof (cases res)
      case None
      then obtain s1 where s1: "DAC_DMAConvCplt ch ct_bit s = Inr s1"
        "AdvancedDAC_dequeue s1 irqs = Inr (Some (r, s'))"
        using Cons.prems(2) irq Inr by (auto split: sum.splits)
      show ?thesis
        using Cons.IH [OF Cplt_sys_inv [OF Cons.prems(1) s1(1)] s1(2)] .
    next
      case (Some a)
      then show ?thesis
        using Cons.prems irq Inr dequeue_try_inv by simp
    qed
  qed
qed

lemma write_sys_inv:
  assumes "sys_inv N k (s, held)" "r \<in> set held" "AdvancedDAC_write sz r s = Inr s'"
  shows "sys_inv N k (s', remove1 r held)"
proof -
  from assms(1) have k: "descr s = Some k" "descr_inv N held (dac_descr_all s ! k)"
    by (auto simp: sys_inv_def)
  have "on_descr k (write_on sz r) s = Inr s'"
    using assms(3) k(1) by (simp add: AdvancedDAC_write_def)
  then show ?thesis
    using on_descr_same [OF assms(1), of "write_on sz r" s' "remove1 r held"]
      write_on_inv [OF k(2) assms(2), of sz]
    by auto
qed

lemma release_sys_inv:
  assumes "sys_inv N k (s, held)" "r \<in> set held" "buffer_release r s = Inr s'"
  shows "sys_inv N k (s', remove1 r held)"
proof -
  from assms(1) have k: "descr s = Some k" "descr_inv N held (dac_descr_all s ! k)"
    by (auto simp: sys_inv_def)
  then obtain p where p: "pool (dac_descr_all s ! k) = Some p"
    "partition_ok N (freeq p) (readyq p) (inflight (dac_descr_all s ! k)) held"
    by (auto simp: descr_inv_def split: option.splits)
  have "is_pool_buf N r"
    using partition_mem [OF p(2)] assms(2) by simp
  then obtain i where "r = Buf i"
    by (cases r) (auto simp: is_pool_buf_def)
  then have "on_descr k (release_on r) s = Inr s'"
    using assms(3) k(1) by (simp add: buffer_release_def)
  then show ?thesis
    using on_descr_same [OF assms(1), of "release_on r" s' "remove1 r held"]
      release_on_inv [OF k(2) assms(2)]
    by auto
qed

lemma stop_sys_inv:
  assumes "sys_inv N k (s, held)" "AdvancedDAC_stop s = Inr (ret, s')"
  shows "sys_inv N k (s', held)"
proof -
  from assms(1) have k: "descr s = Some k" "descr_inv N held (dac_descr_all s ! k)"
    by (auto simp: sys_inv_def)
  then obtain p where p: "pool (dac_descr_all s ! k) = Some p"
    by (auto simp: descr_inv_def split: option.splits)
  have "on_descr k (dac_descr_deinit_on False) s = Inr s'"
    using assms(2) k(1)
    by (auto simp: AdvancedDAC_stop_def dac_descr_deinit_def split: sum.splits)
  then show ?thesis
    using on_descr_same [OF assms(1), of "dac_descr_deinit_on False" s' held]
      dac_descr_deinit_on_inv [OF k(2) p]
    by auto
qed

lemma step_sys_inv:
  assumes "sys_inv N k c" "step sz x c = Inr c'"
  shows "sys_inv N k c'"
proof -
  obtain s held where c: "c = (s, held)"
    by (cases c)
  show ?thesis
  proof (cases x)
    case (Acquire irqs)
    then show ?thesis
      using assms c dequeue_sys_inv
      by (auto split: sum.splits option.splits)
  next
    case (Submit r)
    then show ?thesis
      using assms c write_sys_inv
      by (auto split: sum.splits if_splits)
  next
    case (Release r)
    then show ?thesis
      using assms c release_sys_inv
      by (auto split: sum.splits if_splits)
  next
    case (Completion ch ct_bit)
    then show ?thesis
      using assms c Cplt_sys_inv
      by (auto split: sum.splits)
  next
    case Stop
    then show ?thesis
      using assms c stop_sys_inv
      by (auto split: sum.splits)
  qed
qed

lemma run_sys_inv:
  "sys_inv N k c \<Longrightarrow> run sz xs c = Inr c' \<Longrightarrow> sys_inv N k c'"
proof (induction xs arbitrary: c)
  case Nil
  then show ?case by simp
next
  case (Cons x xs)
  then show ?case
    by (auto split: sum.splits dest: step_sys_inv)
qed

lemma partition_full:
  assumes "partition_ok N fq rq fl held"
  shows "set (fq @ rq @ fl @ held) = Buf ` {..<N}"
proof -
  let ?xs = "fq @ rq @ fl @ held"
  from assms have d: "distinct ?xs" and a: "list_all (is_pool_buf N) ?xs" and l: "length ?xs = N"
    by (auto simp: partition_ok_def)
  have sub: "set ?xs \<subseteq> Buf ` {..<N}"
  proof
    fix r assume "r \<in> set ?xs"
    then have "is_pool_buf N r"
      using a by (simp add: list_all_iff)
    then show "r \<in> Buf ` {..<N}"
      by (cases r) (auto simp: is_pool_buf_def)
  qed
  have "card (set ?xs) = N"
    using d l distinct_card by metis
  moreover have "card (Buf ` {..<N}) = N"
    by (simp add: card_image inj_on_def)
  ultimately show ?thesis
    using sub by (intro card_subset_eq) auto
qed

lemma replicate_default_unbound:
  "list_all bound_buffer (replicate n DMABuffer_default) \<Longrightarrow> n = 0"
  by (cases n) (auto simp: bound_buffer_def DMABuffer_default_def DMABuffer_ctor_def)

lemma ctor_partition:
  assumes "pool_usable (unat nb) (DMABufferPool_ctor A sz nw sm ns nc nb)"
  shows "partition_ok (unat nb) (freeq (DMABufferPool_ctor A sz nw sm ns nc nb))
           (readyq (DMABufferPool_ctor A sz nw sm ns nc nb)) [] []"
proof (cases "nw \<and> fst (AlignedAlloc_malloc A sm (nb * AlignedAlloc_round A (ns * nc * sz))) \<noteq> 0")
  case True
  then have "DMABufferPool_ctor A sz nw sm ns nc nb =
     \<lparr>freeq = map Buf [0..<unat nb], readyq = [],
      buffers = Some (map (\<lambda>i. DMABuffer_ctor True ns nc
                            (fst (AlignedAlloc_malloc A sm (nb * AlignedAlloc_round A (ns * nc * sz)))
                             + of_nat i * AlignedAlloc_round A (ns * nc * sz)))
                        [0..<unat nb]),
      pool_mem = fst (AlignedAlloc_malloc A sm (nb * AlignedAlloc_round A (ns * nc * sz)))\<rparr>"
    using DMABufferPool_ctor_ok [of A sm nb ns nc sz] by simp
  then show ?thesis
    by (simp add: partition_ok_def distinct_map inj_on_def list_all_iff is_pool_buf_def)
next
  case False
  then have q: "freeq (DMABufferPool_ctor A sz nw sm ns nc nb) = []"
    "readyq (DMABufferPool_ctor A sz nw sm ns nc nb) = []"
    using DMABufferPool_ctor_fail [of nw A sm nb ns nc sz] by auto
  from False have "buffers (DMABufferPool_ctor A sz nw sm ns nc nb)
      = (if nw then Some (replicate (unat nb) DMABuffer_default) else None)"
    by (auto simp: DMABufferPool_ctor_def Let_def)
  then have "unat nb = 0"
    using assms replicate_default_unbound
    by (auto simp: pool_usable_def split: if_splits)
  then show ?thesis
    using q by (simp add: partition_ok_def)
qed

lemma begin_sys_inv:
  assumes "AdvancedDAC_begin e res fr ns nb dac_state_init = (1, s0)"
    and "descr s0 = Some k" and "pool (dac_descr_all s0 ! k) = Some p0"
    and "pool_usable (unat nb) p0"
  shows "sys_inv (unat nb) k (s0, [])"
proof -
  let ?p = "DMABufferPool_ctor SCB_DCACHE_LINE_SIZE (sizeof_Sample e) (new_buffers e)
              (sys_malloc e) ns (dac_channels e) nb"
  from assms(1,2) have k: "k < 2" "length (dac_descr_all s0) = 2"
    "pool (dac_descr_all s0 ! k) = Some ?p" "dmabuf (dac_descr_all s0 ! k) = [None, None]"
    by (auto simp: AdvancedDAC_begin_def Let_def dac_state_init_def dac_descr_all_init_def
        dac_descr_get_def split: if_splits option.splits)
  have "pool_usable (unat nb) ?p"
    using assms(3,4) k(3) by simp
  then have "partition_ok (unat nb) (freeq ?p) (readyq ?p) [] []"
    by (rule ctor_partition)
  then show ?thesis
    using assms(2,3,4) k
    by (simp add: sys_inv_def descr_inv_def inflight_def)
qed

section \<open>Evaluation on concrete states\<close>

lemma begin4:
  "AdvancedDAC_begin env_ok 1 1000 8 4 dac_state_init =
     (1, \<lparr>dac_descr_all =
            [\<lparr>channel = DAC_CHANNEL_1, resolution = DAC_ALIGN_12B_R, pool = Some pool4,
              dmabuf = [None, None],
              hal = [hal_dma_config, hal_dac_config DAC_CHANNEL_1, HAL_LINKDMA 1,
                     hal_tim_config 1000]\<rparr>,
             \<lparr>channel = DAC_CHANNEL_2, resolution = DAC_ALIGN_12B_R, pool = None,
              dmabuf = [None, None], hal = []\<rparr>],
          descr = Some 0\<rparr>)"
  by (simp add: AdvancedDAC_begin_def Let_def env_ok_def dac_state_init_def
      dac_descr_all_init_def DAC_CHAN_LUT_at_def DAC_CHAN_LUT_def DAC_RES_LUT_def
      dac_descr_get_def pool4_def word_le_nat_alt)

lemmas eval_defs = dequeue_try_def AdvancedDAC_available_def allocate_on_def allocate_def
  LLQueue_pop_def LLQueue_push_def LLQueue_empty_def writable_def readable_def
  DAC_DMAConvCplt_def dac_descr_get_def on_descr_def DAC_DMAConvCplt_on_def
  dac_descr_deinit_on_def dac_descr_deinit_def AdvancedDAC_stop_def AdvancedDAC_write_def
  write_on_never_starts deref_def enqueue_def dequeue_def flush_def data_def bytes_def
  buffer_release_def release_on_def DMABuffer_release_def DMABufferPool_release_def
  clrflags_def DMABuffer_ctor_def DAC_CHANNEL_1_def DAC_CHANNEL_2_def deref_opt_def

lemma s4_eq:
  "s4 = \<lparr>dac_descr_all =
            [\<lparr>channel = DAC_CHANNEL_1, resolution = DAC_ALIGN_12B_R, pool = Some pool4,
              dmabuf = [None, None],
              hal = [hal_dma_config, hal_dac_config DAC_CHANNEL_1, HAL_LINKDMA 1,
                     hal_tim_config 1000]\<rparr>,
             \<lparr>channel = DAC_CHANNEL_2, resolution = DAC_ALIGN_12B_R, pool = None,
              dmabuf = [None, None], hal = []\<rparr>],
          descr = Some 0\<rparr>"
  by (simp add: s4_def begin4)

lemma s4_drained_eq:
  "s4_drained = \<lparr>dac_descr_all =
            [\<lparr>channel = DAC_CHANNEL_1, resolution = DAC_ALIGN_12B_R,
              pool = Some (pool4\<lparr>freeq := [Buf 3, Buf 0], readyq := []\<rparr>),
              dmabuf = [Some (Buf 2), Some (Buf 1)],
              hal = [hal_dma_config, hal_dac_config DAC_CHANNEL_1, HAL_LINKDMA 1,
                     hal_tim_config 1000]\<rparr>,
             \<lparr>channel = DAC_CHANNEL_2, resolution = DAC_ALIGN_12B_R, pool = None,
              dmabuf = [None, None], hal = []\<rparr>],
          descr = Some 0\<rparr>"
  by (simp add: s4_drained_def with_queues_def s4_eq)

lemma descr_inv_drained: "descr_inv 4 [] (dac_descr_all s4_drained ! 0)"
  using pool4_usable
  by (simp add: s4_drained_eq descr_inv_def partition_ok_def inflight_def is_pool_buf_def
      pool_usable_def)

section \<open>No buffer gets in flight\<close>

text \<open>
  \<^verbatim>\<open>write\<close> never fills a slot, and no other operation does: after \<^verbatim>\<open>begin\<close> on the
  initial state and any sequence of operations, both slots of every descriptor are
  empty. A completion callback that finds a buffer in the ready queue then reads through
  the null pointer of its slot.
\<close>

lemma write_on_dmabuf:
  assumes "write_on sz r d = Inr d'"
  shows "dmabuf d' = dmabuf d"
proof (cases "pool d")
  case None
  then show ?thesis
    using assms by (simp add: write_on_never_starts)
next
  case (Some p)
  then show ?thesis
    using assms by (cases "deref p r") (auto simp: write_on_never_starts)
qed

lemma release_on_dmabuf:
  assumes "release_on r d = Inr d'"
  shows "dmabuf d' = dmabuf d"
proof (cases "pool d")
  case None
  then show ?thesis
    using assms by (cases r) (auto simp: release_on_def)
next
  case (Some p)
  then show ?thesis
    using assms by (cases "DMABuffer_release r p") (auto simp: release_on_def)
qed

lemma allocate_on_dmabuf: "allocate_on d = Inr (r, d') \<Longrightarrow> dmabuf d' = dmabuf d"
  by (auto simp: allocate_on_def allocate_def split: option.splits prod.splits)

lemma deinit_on_empty:
  "dmabuf d = [None, None] \<Longrightarrow> dac_descr_deinit_on False d = Inr d' \<Longrightarrow> dmabuf d' = [None, None]"
  by (auto simp: dac_descr_deinit_on_def upt_rec)

lemma Cplt_on_empty:
  assumes "dmabuf d = [None, None]" "DAC_DMAConvCplt_on ct_bit d = Inr d'"
  shows "dmabuf d' = [None, None]"
proof (cases "pool d")
  case None
  then show ?thesis
    using assms(2) by (simp add: DAC_DMAConvCplt_on_def)
next
  case (Some p)
  show ?thesis
  proof (cases "readable p")
    case True
    then show ?thesis
      using assms Some by (cases ct_bit) (simp_all add: DAC_DMAConvCplt_on_def)
  next
    case False
    then have "dac_descr_deinit_on False d = Inr d'"
      using assms(2) Some by (simp add: DAC_DMAConvCplt_on_def)
    then show ?thesis
      using deinit_on_empty [OF assms(1)] by simp
  qed
qed

lemma Cplt_on_ready_crashes:
  "dmabuf d = [None, None] \<Longrightarrow> pool d = Some p \<Longrightarrow> readyq p \<noteq> []
     \<Longrightarrow> DAC_DMAConvCplt_on ct_bit d = Inl NullDeref"
  by (simp add: DAC_DMAConvCplt_on_def readable_def LLQueue_empty_def)

lemma on_descr_empty:
  assumes "slots_empty s" "on_descr k f s = Inr s'"
    and "\<And>d'. f (dac_descr_all s ! k) = Inr d' \<Longrightarrow> dmabuf d' = [None, None]"
  shows "slots_empty s'"
proof -
  from assms(2) obtain d' where d': "k < length (dac_descr_all s)"
    "f (dac_descr_all s ! k) = Inr d'" "s' = s\<lparr>dac_descr_all := (dac_descr_all s)[k := d']\<rparr>"
    by (auto simp: on_descr_def split: if_splits sum.splits)
  have "set ((dac_descr_all s)[k := d']) \<subseteq> insert d' (set (dac_descr_all s))"
    by (rule set_update_subset_insert)
  then show ?thesis
    using assms(1) assms(3) [OF d'(2)] d'(3)
    by (auto simp: slots_empty_def list_all_iff)
qed

lemma slots_empty_nth:
  "slots_empty s \<Longrightarrow> k < length (dac_descr_all s) \<Longrightarrow> dmabuf (dac_descr_all s ! k) = [None, None]"
  by (simp add: slots_empty_def list_all_length)

lemma on_descr_keeps_empty:
  assumes "slots_empty s" "on_descr k f s = Inr s'"
    and "\<And>d d'. f d = Inr d' \<Longrightarrow> dmabuf d = [None, None] \<Longrightarrow> dmabuf d' = [None, None]"
  shows "slots_empty s'"
proof (rule on_descr_empty [OF assms(1,2)])
  fix d' assume f: "f (dac_descr_all s ! k) = Inr d'"
  have "k < length (dac_descr_all s)"
    using assms(2) by (cases "k < length (dac_descr_all s)") (simp_all add: on_descr_def)
  then have "dmabuf (dac_descr_all s ! k) = [None, None]"
    using slots_empty_nth [OF assms(1)] by simp
  then show "dmabuf d' = [None, None]"
    using assms(3) [OF f] by simp
qed

lemma Cplt_empty:
  assumes "slots_empty s" "DAC_DMAConvCplt ch ct_bit s = Inr s'"
  shows "slots_empty s'"
proof (cases "dac_descr_get ch")
  case None
  then show ?thesis
    using assms(2) by (simp add: DAC_DMAConvCplt_def)
next
  case (Some k)
  then have k: "on_descr k (DAC_DMAConvCplt_on ct_bit) s = Inr s'"
    using assms(2) by (simp add: DAC_DMAConvCplt_def)
  show ?thesis
  proof (rule on_descr_keeps_empty [OF assms(1) k])
    fix d d' assume a: "DAC_DMAConvCplt_on ct_bit d = Inr d'" "dmabuf d = [None, None]"
    show "dmabuf d' = [None, None]"
      by (rule Cplt_on_empty [OF a(2) a(1)])
  qed
qed

lemma dequeue_try_empty:
  assumes "slots_empty s" "dequeue_try s = Inr (Some (r, s'))"
  shows "slots_empty s'"
proof (cases "descr s")
  case None
  then show ?thesis
    using assms by (simp add: dequeue_try_def)
next
  case (Some k)
  show ?thesis
  proof (cases "AdvancedDAC_available s")
    case (Inl e)
    then show ?thesis
      using assms(2) Some by (simp add: dequeue_try_def)
  next
    case (Inr b)
    have k: "k < length (dac_descr_all s)"
      using Inr Some
      by (cases "k < length (dac_descr_all s)") (simp_all add: AdvancedDAC_available_def)
    show ?thesis
    proof (cases b)
      case False
      then show ?thesis
        using assms(2) Some Inr by (simp add: dequeue_try_def)
    next
      case True
      show ?thesis
      proof (cases "allocate_on (dac_descr_all s ! k)")
        case (Inl e)
        then show ?thesis
          using assms(2) Some Inr True by (simp add: dequeue_try_def)
      next
        case a: (Inr rd)
        obtain r0 d where rd: "rd = (r0, d)"
          by (cases rd)
        have s': "s' = s\<lparr>dac_descr_all := (dac_descr_all s)[k := d]\<rparr>" and "r0 = r"
          using assms(2) Some Inr True a rd by (simp_all add: dequeue_try_def)
        have "dmabuf d = [None, None]"
          using allocate_on_dmabuf [of "dac_descr_all s ! k" r0 d] a rd
            slots_empty_nth [OF assms(1) k]
          by simp
        moreover have "set ((dac_descr_all s)[k := d]) \<subseteq> insert d (set (dac_descr_all s))"
          by (rule set_update_subset_insert)
        ultimately show ?thesis
          using assms(1) s' by (auto simp: slots_empty_def list_all_iff)
      qed
    qed
  qed
qed

lemma dequeue_empty:
  "slots_empty s \<Longrightarrow> AdvancedDAC_dequeue s irqs = Inr (Some (r, s')) \<Longrightarrow> slots_empty s'"
proof (induction irqs arbitrary: s)
  case Nil
  then show ?case
    using dequeue_try_empty by simp
next
  case (Cons irq irqs)
  obtain ch ct_bit where irq: "irq = (ch, ct_bit)"
    by (cases irq)
  show ?case
  proof (cases "dequeue_try s")
    case (Inl e)
    then show ?thesis
      using Cons.prems(2) irq by simp
  next
    case (Inr res)
    show ?thesis
    proof (cases res)
      case None
      show ?thesis
      proof (cases "DAC_DMAConvCplt ch ct_bit s")
        case (Inl e)
        then show ?thesis
          using Cons.prems(2) irq Inr None by simp
      next
        case s1: (Inr s1)
        then have "AdvancedDAC_dequeue s1 irqs = Inr (Some (r, s'))"
          using Cons.prems(2) irq Inr None by simp
        then show ?thesis
          using Cons.IH [OF Cplt_empty [OF Cons.prems(1) s1]] by simp
      qed
    next
      case (Some a)
      then show ?thesis
        using Cons.prems irq Inr dequeue_try_empty by simp
    qed
  qed
qed

lemma write_empty:
  assumes "slots_empty s" "AdvancedDAC_write sz r s = Inr s'"
  shows "slots_empty s'"
proof (cases "descr s")
  case None
  then show ?thesis
    using assms(2) by (simp add: AdvancedDAC_write_def)
next
  case (Some k)
  then have k: "on_descr k (write_on sz r) s = Inr s'"
    using assms(2) by (simp add: AdvancedDAC_write_def)
  show ?thesis
  proof (rule on_descr_keeps_empty [OF assms(1) k])
    fix d d' assume a: "write_on sz r d = Inr d'" "dmabuf d = [None, None]"
    show "dmabuf d' = [None, None]"
      using write_on_dmabuf [OF a(1)] a(2) by simp
  qed
qed

lemma buffer_release_empty:
  assumes "slots_empty s" "buffer_release r s = Inr s'"
  shows "slots_empty s'"
proof (cases r)
  case NULLBUF
  then show ?thesis
    using assms by (simp add: buffer_release_def)
next
  case (Buf i)
  show ?thesis
  proof (cases "descr s")
    case None
    then show ?thesis
      using assms(2) Buf by (simp add: buffer_release_def)
  next
    case (Some k)
    then have k: "on_descr k (release_on r) s = Inr s'"
      using assms(2) Buf by (simp add: buffer_release_def)
    show ?thesis
    proof (rule on_descr_keeps_empty [OF assms(1) k])
      fix d d' assume a: "release_on r d = Inr d'" "dmabuf d = [None, None]"
      show "dmabuf d' = [None, None]"
        using release_on_dmabuf [OF a(1)] a(2) by simp
    qed
  qed
qed

lemma stop_empty:
  assumes "slots_empty s" "AdvancedDAC_stop s = Inr (ret, s')"
  shows "slots_empty s'"
proof -
  have de: "dac_descr_deinit (descr s) False s = Inr s'"
    using assms(2)
    by (cases "dac_descr_deinit (descr s) False s") (simp_all add: AdvancedDAC_stop_def)
  show ?thesis
  proof (cases "descr s")
    case None
    then have "s' = s"
      using de by (simp add: dac_descr_deinit_def)
    then show ?thesis
      using assms(1) by simp
  next
    case (Some k)
    then have k: "on_descr k (dac_descr_deinit_on False) s = Inr s'"
      using de by (simp add: dac_descr_deinit_def)
    show ?thesis
    proof (rule on_descr_keeps_empty [OF assms(1) k])
      fix d d' assume a: "dac_descr_deinit_on False d = Inr d'" "dmabuf d = [None, None]"
      show "dmabuf d' = [None, None]"
        by (rule deinit_on_empty [OF a(2) a(1)])
    qed
  qed
qed

lemma step_empty:
  assumes "slots_empty (fst c)" "step sz x c = Inr c'"
  shows "slots_empty (fst c')"
proof -
  obtain s held where c: "c = (s, held)"
    by (cases c)
  show ?thesis
  proof (cases x)
    case (Acquire irqs)
    then show ?thesis
      using assms c dequeue_empty
      by (auto split: sum.splits option.splits)
  next
    case (Submit r)
    then show ?thesis
      using assms c write_empty
      by (auto split: sum.splits if_splits)
  next
    case (Release r)
    then show ?thesis
      using assms c buffer_release_empty
      by (auto split: sum.splits if_splits)
  next
    case (Completion ch ct_bit)
    then show ?thesis
      using assms c Cplt_empty
      by (auto split: sum.splits)
  next
    case Stop
    then show ?thesis
      using assms c stop_empty
      by (auto split: sum.splits)
  qed
qed

lemma run_empty:
  "slots_empty (fst c) \<Longrightarrow> run sz xs c = Inr c' \<Longrightarrow> slots_empty (fst c')"
proof (induction xs arbitrary: c)
  case Nil
  then show ?case by simp
next
  case (Cons x xs)
  then show ?case
    by (auto split: sum.splits dest: step_empty)
qed

lemma begin_empty:
  "slots_empty (snd (AdvancedDAC_begin e res fr ns nb dac_state_init))"
  by (auto simp: AdvancedDAC_begin_def Let_def dac_state_init_def dac_descr_all_init_def
      dac_descr_get_def slots_empty_def split: option.splits)

section \<open>The claims about the driver\<close>

text \<open>
  C2. After three buffers have been acquired and submitted on a channel with a pool of
  four, the first slot is empty and the ready queue holds three buffers, more than two;
  yet no buffer has moved to the slots and the calls that start the transfer, enable the
  double-buffer mode and start the timer have not been issued: the only calls after the
  configuration are the three cache cleans. The comparison of the \<^verbatim>\<open>bool\<close> returned by
  \<^verbatim>\<open>readable()\<close> with 2 is never true.
\<close>

theorem write_does_not_start:
  "queues 0 (run 2 submit3 (s4, [])) = Inr ([Buf 3], [Buf 0, Buf 1, Buf 2], [], [])
   \<and> hal_calls 0 (run 2 submit3 (s4, [])) =
       Inr [hal_dma_config, hal_dac_config DAC_CHANNEL_1, HAL_LINKDMA 1, hal_tim_config 1000,
            SCB_CleanDCache_by_Addr 0x20000020 16, SCB_CleanDCache_by_Addr 0x20000040 16,
            SCB_CleanDCache_by_Addr 0x20000060 16]"
  by (simp add: s4_eq pool4_eq submit3_def eval_defs queues_def hal_calls_def inflight_def)

text \<open>
  C3, as stated, fails: after one \<^verbatim>\<open>acquire\<close> on a pool of four buffers the first
  buffer is with the application, in none of the free queue, the ready queue and the
  slots, which hold three buffers.
\<close>

theorem three_way_partition_counterexample:
  "queues 0 (run 2 [Acquire []] (s4, [])) = Inr ([Buf 1, Buf 2, Buf 3], [], [], [Buf 0])
   \<and> \<not> spec_partition 4 (dac_descr_all (fst (projr (run 2 [Acquire []] (s4, [])))) ! 0)"
  by (simp add: s4_eq pool4_eq eval_defs queues_def inflight_def spec_partition_def upt_rec)

text \<open>
  C3, as the code has it. Let \<^verbatim>\<open>begin\<close> succeed on the initial state with a pool of
  \<open>n_buffers\<close> buffers whose allocations succeeded. After every sequence of the operations
  acquire, submit and release of a buffer the application holds, completion callback and
  stop that returns without error, the free queue, the ready queue, the in-flight slots
  and the buffers held by the application are pairwise disjoint, every buffer of the pool
  is in exactly one of them, and their sizes add up to \<open>n_buffers\<close>.
\<close>

theorem pool_partition:
  assumes "AdvancedDAC_begin e res fr ns nb dac_state_init = (1, s0)"
    and "descr s0 = Some k" and "pool (dac_descr_all s0 ! k) = Some p0"
    and "pool_usable (unat nb) p0"
    and "run sz xs (s0, []) = Inr (s, held)"
  shows "\<exists>p. pool (dac_descr_all s ! k) = Some p
           \<and> distinct (freeq p @ readyq p @ inflight (dac_descr_all s ! k) @ held)
           \<and> set (freeq p @ readyq p @ inflight (dac_descr_all s ! k) @ held)
               = Buf ` {..<unat nb}
           \<and> length (freeq p) + length (readyq p) + length (inflight (dac_descr_all s ! k))
               + length held = unat nb"
proof -
  have "sys_inv (unat nb) k (s, held)"
    using run_sys_inv [OF begin_sys_inv [OF assms(1-4)] assms(5)] .
  then obtain p where p: "pool (dac_descr_all s ! k) = Some p"
    "partition_ok (unat nb) (freeq p) (readyq p) (inflight (dac_descr_all s ! k)) held"
    by (auto simp: sys_inv_def descr_inv_def split: option.splits)
  show ?thesis
    using p(1) partition_full [OF p(2)] p(2)
    by (simp add: partition_ok_def)
qed

text \<open>
  A pool of four buffers and a trace with every kind of operation: two buffers acquired,
  one submitted, one released, a completion on the empty ready queue and a stop.
\<close>

theorem pool_partition_witness:
  "AdvancedDAC_begin env_ok 1 1000 8 4 dac_state_init = (1, s4)
   \<and> pool_usable (unat (4 :: size_t)) pool4
   \<and> queues 0 (run 2 trace4 (s4, [])) = Inr ([Buf 2, Buf 3, Buf 1], [Buf 0], [], [])
   \<and> set ([Buf 2, Buf 3, Buf 1] @ [Buf 0] @ [] @ []) = Buf ` {..<unat (4 :: size_t)}"
proof -
  have h1: "AdvancedDAC_begin env_ok 1 1000 8 4 dac_state_init = (1, s4)"
    by (simp add: s4_def begin4)
  have h2: "descr s4 = Some 0"
    by (simp add: s4_eq)
  have h3: "pool (dac_descr_all s4 ! 0) = Some pool4"
    by (simp add: s4_eq)
  have h4: "pool_usable (unat (4 :: size_t)) pool4"
    using pool4_usable by simp
  obtain s where h5: "run 2 trace4 (s4, []) = Inr (s, [])"
    by (simp add: s4_eq pool4_eq trace4_def eval_defs upt_rec)
  have q: "queues 0 (run 2 trace4 (s4, [])) = Inr ([Buf 2, Buf 3, Buf 1], [Buf 0], [], [])"
    by (simp add: s4_eq pool4_eq trace4_def eval_defs upt_rec queues_def inflight_def)
  show ?thesis
    using pool_partition [OF h1 h2 h3 h4 h5] h1 h4 q h5
    by (auto simp: queues_def split: option.splits)
qed

lemma count_list_distinct:
  "distinct xs \<Longrightarrow> x \<in> set xs \<Longrightarrow> count_list xs x = 1"
  by (induction xs) auto


text \<open>
  The callback by itself: in a well-formed state, a buffer that a completion callback
  consumes is, after the callback, in the free queue exactly once, and neither in the
  ready queue, nor in a slot, nor with the application.
\<close>

lemma Cplt_returns_consumed:
  assumes "dac_descr_get ch = Some k" and "k < length (dac_descr_all s)"
    and "descr_inv N held (dac_descr_all s ! k)"
    and "consumes ct_bit (dac_descr_all s ! k) r"
  shows "\<exists>s' p'. DAC_DMAConvCplt ch ct_bit s = Inr s'
           \<and> pool (dac_descr_all s' ! k) = Some p'
           \<and> count_list (freeq p') r = 1
           \<and> r \<notin> set (readyq p') \<and> r \<notin> set (inflight (dac_descr_all s' ! k))
           \<and> r \<notin> set held"
proof -
  let ?d = "dac_descr_all s ! k"
  from assms(3) obtain p where p: "pool ?d = Some p"
    by (auto simp: descr_inv_def split: option.splits)
  have "\<exists>d' p'. DAC_DMAConvCplt_on ct_bit ?d = Inr d' \<and> pool d' = Some p'
          \<and> descr_inv N held d' \<and> r \<in> set (freeq p')"
  proof (cases "readable p")
    case True
    then have "dmabuf ?d ! (if ct_bit then 0 else 1) = Some r"
      using assms(4) p by (simp add: consumes_def)
    from Cplt_on_refill [OF assms(3) p True this] show ?thesis
      by auto
  next
    case False
    then have "r \<in> set (inflight ?d)"
      using assms(4) p by (simp add: consumes_def)
    then show ?thesis
      using dac_descr_deinit_on_inv [OF assms(3) p] Cplt_on_underrun [OF p False, of ct_bit]
      by auto
  qed
  then obtain d' p' where d': "DAC_DMAConvCplt_on ct_bit ?d = Inr d'" "pool d' = Some p'"
    "descr_inv N held d'" "r \<in> set (freeq p')"
    by blast
  have part: "partition_ok N (freeq p') (readyq p') (inflight d') held"
    using d'(2,3) by (simp add: descr_inv_def)
  then have "distinct (freeq p')"
    by (simp add: partition_ok_def)
  then have "count_list (freeq p') r = 1"
    using d'(4) by (simp add: count_list_distinct)
  moreover have "r \<notin> set (readyq p')" "r \<notin> set (inflight d')" "r \<notin> set held"
    using part d'(4) by (auto simp: partition_ok_def)
  moreover have "DAC_DMAConvCplt ch ct_bit s = Inr (s\<lparr>dac_descr_all := (dac_descr_all s)[k := d']\<rparr>)"
    using assms(1,2) d'(1) by (simp add: DAC_DMAConvCplt_def on_descr_def)
  ultimately show ?thesis
    using assms(2) d'(2) by simp
qed

text \<open>
  C5. In a well-formed state whose ready queue is empty, the completion callback stops
  the timer and the transfer, returns the buffers of both slots to the free queue in
  slot order, clears both slots and keeps the pool with its array and its memory; the
  ready queue stays empty and nothing else of the descriptor changes.
\<close>

theorem completion_underrun:
  assumes "dac_descr_get ch = Some k" and "k < length (dac_descr_all s)"
    and "descr_inv N held (dac_descr_all s ! k)"
    and "pool (dac_descr_all s ! k) = Some p" and "readyq p = []"
  shows "\<exists>d' p'. DAC_DMAConvCplt ch ct_bit s = Inr (s\<lparr>dac_descr_all := (dac_descr_all s)[k := d']\<rparr>)
           \<and> hal d' = hal (dac_descr_all s ! k)
                @ [HAL_TIM_Base_Stop, HAL_DAC_Stop_DMA (channel (dac_descr_all s ! k))]
           \<and> dmabuf d' = [None, None]
           \<and> pool d' = Some p' \<and> buffers p' \<noteq> None \<and> pool_mem p' = pool_mem p
           \<and> freeq p' = freeq p @ inflight (dac_descr_all s ! k) \<and> readyq p' = []
           \<and> channel d' = channel (dac_descr_all s ! k)
           \<and> resolution d' = resolution (dac_descr_all s ! k)"
proof -
  let ?d = "dac_descr_all s ! k"
  have nr: "\<not> readable p"
    using assms(5) by (simp add: readable_def LLQueue_empty_def)
  obtain d' p' where d': "dac_descr_deinit_on False ?d = Inr d'" "pool d' = Some p'"
    "hal d' = hal ?d @ [HAL_TIM_Base_Stop, HAL_DAC_Stop_DMA (channel ?d)]"
    "channel d' = channel ?d" "resolution d' = resolution ?d" "dmabuf d' = [None, None]"
    "freeq p' = freeq p @ inflight ?d" "readyq p' = readyq p" "buffers p' \<noteq> None"
    "pool_mem p' = pool_mem p"
    using dac_descr_deinit_on_inv [OF assms(3,4)] by blast
  have "DAC_DMAConvCplt ch ct_bit s = Inr (s\<lparr>dac_descr_all := (dac_descr_all s)[k := d']\<rparr>)"
    using assms(1,2) d'(1) Cplt_on_underrun [OF assms(4) nr, of ct_bit]
    by (simp add: DAC_DMAConvCplt_def on_descr_def)
  then show ?thesis
    using d' assms(5) by (intro exI [of _ d'] exI [of _ p']) simp
qed

text \<open>
  Two buffers in flight and none ready: after the callback all four buffers are free and
  the last two calls are the two stops.
\<close>

theorem completion_underrun_witness:
  "queues 0 (map_sum id (\<lambda>s. (s, [])) (DAC_DMAConvCplt DAC_CHANNEL_1 True s4_drained))
       = Inr ([Buf 3, Buf 0, Buf 2, Buf 1], [], [], [])
   \<and> hal_calls 0 (map_sum id (\<lambda>s. (s, [])) (DAC_DMAConvCplt DAC_CHANNEL_1 True s4_drained))
       = Inr [hal_dma_config, hal_dac_config DAC_CHANNEL_1, HAL_LINKDMA 1, hal_tim_config 1000,
              HAL_TIM_Base_Stop, HAL_DAC_Stop_DMA DAC_CHANNEL_1]
   \<and> (\<exists>d' p'. DAC_DMAConvCplt DAC_CHANNEL_1 True s4_drained
                 = Inr (s4_drained\<lparr>dac_descr_all := (dac_descr_all s4_drained)[0 := d']\<rparr>)
         \<and> dmabuf d' = [None, None] \<and> pool d' = Some p' \<and> buffers p' \<noteq> None)"
proof -
  have h1: "dac_descr_get DAC_CHANNEL_1 = Some 0"
    by (simp add: dac_descr_get_def)
  have h2: "0 < length (dac_descr_all s4_drained)"
    by (simp add: s4_drained_eq)
  have h4: "pool (dac_descr_all s4_drained ! 0) = Some (pool4\<lparr>freeq := [Buf 3, Buf 0], readyq := []\<rparr>)"
    by (simp add: s4_drained_eq)
  have h5: "readyq (pool4\<lparr>freeq := [Buf 3, Buf 0], readyq := []\<rparr>) = []"
    by simp
  have q: "queues 0 (map_sum id (\<lambda>s. (s, [])) (DAC_DMAConvCplt DAC_CHANNEL_1 True s4_drained))
       = Inr ([Buf 3, Buf 0, Buf 2, Buf 1], [], [], [])"
    by (simp add: s4_drained_eq pool4_eq eval_defs queues_def inflight_def upt_rec)
  have c: "hal_calls 0 (map_sum id (\<lambda>s. (s, [])) (DAC_DMAConvCplt DAC_CHANNEL_1 True s4_drained))
       = Inr [hal_dma_config, hal_dac_config DAC_CHANNEL_1, HAL_LINKDMA 1, hal_tim_config 1000,
              HAL_TIM_Base_Stop, HAL_DAC_Stop_DMA DAC_CHANNEL_1]"
    by (simp add: s4_drained_eq pool4_eq eval_defs hal_calls_def upt_rec)
  show ?thesis
    using completion_underrun [OF h1 h2 descr_inv_drained h4 h5, of True] q c
    by blast
qed

text \<open>
  C6. \<^verbatim>\<open>begin\<close> returns 0 and leaves every descriptor as it was, so binds no pool,
  when the resolution is not an index of \<^verbatim>\<open>DAC_RES_LUT\<close>, when no descriptor is
  resolved for the pin's channel, and when the resolved descriptor has a pool already.
\<close>

theorem begin_rejects:
  assumes "of_nat (length DAC_RES_LUT) \<le> res
           \<or> dac_descr_get (DAC_CHAN_LUT_at e (pin_channel e - 1)) = None
           \<or> (\<exists>k. dac_descr_get (DAC_CHAN_LUT_at e (pin_channel e - 1)) = Some k
                  \<and> pool (dac_descr_all s ! k) \<noteq> None)"
  shows "fst (AdvancedDAC_begin e res fr ns nb s) = 0
         \<and> dac_descr_all (snd (AdvancedDAC_begin e res fr ns nb s)) = dac_descr_all s"
  using assms
  by (auto simp: AdvancedDAC_begin_def Let_def split: option.splits)

text \<open>
  Resolution 3; a pin whose channel number is outside the table, where the word found
  is no channel; a second \<^verbatim>\<open>begin\<close> on the channel bound by the first.
\<close>

theorem begin_rejects_witness:
  "fst (AdvancedDAC_begin env_ok 3 1000 8 4 dac_state_init) = 0
   \<and> dac_descr_all (snd (AdvancedDAC_begin env_ok 3 1000 8 4 dac_state_init))
       = dac_descr_all dac_state_init
   \<and> dac_descr_get (DAC_CHAN_LUT_at (env_ok\<lparr>pin_channel := 31\<rparr>)
                      (pin_channel (env_ok\<lparr>pin_channel := 31\<rparr>) - 1)) = None
   \<and> fst (AdvancedDAC_begin (env_ok\<lparr>pin_channel := 31\<rparr>) 1 1000 8 4 dac_state_init) = 0
   \<and> dac_descr_all (snd (AdvancedDAC_begin (env_ok\<lparr>pin_channel := 31\<rparr>) 1 1000 8 4
                            dac_state_init))
       = dac_descr_all dac_state_init
   \<and> pool (dac_descr_all s4 ! 0) \<noteq> None
   \<and> fst (AdvancedDAC_begin env_ok 1 1000 8 4 s4) = 0
   \<and> dac_descr_all (snd (AdvancedDAC_begin env_ok 1 1000 8 4 s4)) = dac_descr_all s4"
proof -
  have a: "of_nat (length DAC_RES_LUT) \<le> (3 :: 32 word)"
    by (simp add: DAC_RES_LUT_def)
  have b: "dac_descr_get (DAC_CHAN_LUT_at (env_ok\<lparr>pin_channel := 31\<rparr>)
                      (pin_channel (env_ok\<lparr>pin_channel := 31\<rparr>) - 1)) = None"
    by (simp add: dac_descr_get_def DAC_CHAN_LUT_at_def DAC_CHAN_LUT_def env_ok_def
        DAC_CHANNEL_1_def DAC_CHANNEL_2_def)
  have c: "dac_descr_get (DAC_CHAN_LUT_at env_ok (pin_channel env_ok - 1)) = Some 0
           \<and> pool (dac_descr_all s4 ! 0) \<noteq> None"
    by (simp add: dac_descr_get_def DAC_CHAN_LUT_at_def DAC_CHAN_LUT_def env_ok_def s4_eq)
  show ?thesis
    using begin_rejects [of 3 env_ok dac_state_init 1000 8 4] a
      begin_rejects [of 1 "env_ok\<lparr>pin_channel := 31\<rparr>" dac_state_init 1000 8 4] b
      begin_rejects [of 1 env_ok s4 1000 8 4] c
    by blast
qed

text \<open>
  C7. With an allocator that fails, the aligned allocation of the pool gives null, and
  \<^verbatim>\<open>begin\<close> still returns 1: it tests only the pointer that \<^verbatim>\<open>new\<close> returned for
  the pool object. \<^verbatim>\<open>available()\<close> is false afterwards.
\<close>

theorem begin_ignores_pool_failure:
  "fst (AlignedAlloc_malloc SCB_DCACHE_LINE_SIZE (sys_malloc env_nomem)
          (4 * AlignedAlloc_round SCB_DCACHE_LINE_SIZE (8 * dac_channels env_nomem
                                                         * sizeof_Sample env_nomem))) = 0
   \<and> fst (AdvancedDAC_begin env_nomem 1 1000 8 4 dac_state_init) = 1
   \<and> AdvancedDAC_available (snd (AdvancedDAC_begin env_nomem 1 1000 8 4 dac_state_init))
       = Inr False"
  by (simp add: AdvancedDAC_begin_def Let_def env_nomem_def env_ok_def dac_state_init_def
      dac_descr_all_init_def DAC_CHAN_LUT_at_def DAC_CHAN_LUT_def DAC_RES_LUT_def
      dac_descr_get_def word_le_nat_alt AdvancedDAC_available_def writable_def
      LLQueue_empty_def DMABufferPool_ctor_def AlignedAlloc_malloc_def SCB_DCACHE_LINE_SIZE_def
      sizeof_ptr_def)

lemma dequeue_unbound:
  "descr s = None \<Longrightarrow> AdvancedDAC_dequeue s irqs = Inr (Some (NULLBUF, s))"
  by (cases irqs) (auto simp: dequeue_try_def)

text \<open>
  C10. With no descriptor bound, \<^verbatim>\<open>write\<close> reads through the null pointer, whereas
  \<^verbatim>\<open>available\<close> returns false and \<^verbatim>\<open>dequeue\<close> returns \<open>NULLBUF\<close> and leaves the
  state alone; and \<^verbatim>\<open>write\<close> returns only if a descriptor is bound and has a pool.
\<close>

theorem write_unguarded:
  "(descr s = None \<longrightarrow>
      AdvancedDAC_write sz r s = Inl NullDeref
      \<and> AdvancedDAC_available s = Inr False
      \<and> AdvancedDAC_dequeue s irqs = Inr (Some (NULLBUF, s)))
   \<and> (\<forall>s'. AdvancedDAC_write sz r s = Inr s' \<longrightarrow>
         (\<exists>k p. descr s = Some k \<and> k < length (dac_descr_all s)
                \<and> pool (dac_descr_all s ! k) = Some p))"
  by (auto simp: AdvancedDAC_write_def AdvancedDAC_available_def dequeue_unbound
      on_descr_def write_on_never_starts split: option.splits if_splits sum.splits)

text \<open>
  The initial state, where nothing is bound, and the state after a successful
  \<^verbatim>\<open>begin\<close>.
\<close>

theorem write_unguarded_witness:
  "descr dac_state_init = None
   \<and> AdvancedDAC_write 2 NULLBUF dac_state_init = Inl NullDeref
   \<and> AdvancedDAC_available dac_state_init = Inr False
   \<and> AdvancedDAC_dequeue dac_state_init [] = Inr (Some (NULLBUF, dac_state_init))
   \<and> (\<exists>s'. AdvancedDAC_write 2 (Buf 0) s4 = Inr s')
   \<and> (\<exists>k p. descr s4 = Some k \<and> k < length (dac_descr_all s4)
            \<and> pool (dac_descr_all s4 ! k) = Some p)"
proof -
  have a: "descr dac_state_init = None"
    by (simp add: dac_state_init_def)
  have b: "\<exists>s'. AdvancedDAC_write 2 (Buf 0) s4 = Inr s'"
    by (simp add: s4_eq pool4_eq eval_defs)
  show ?thesis
    using write_unguarded [of dac_state_init 2 NULLBUF "[]"] a
      write_unguarded [of s4 2 "Buf 0" "[]"] b
    by blast
qed

end
